theory Spec2Isabelle
  imports Main "HOL-Library.AList" "HOL-Library.Product_Lexorder"
begin

section \<open>The Contact table\<close>

text \<open>
  The server keeps one SQLite table, \<open>Contact\<close>. A row is a record with the table's
  eight columns. \<open>id\<close> is the AUTOINCREMENT rowid (a natural number; the field is
  named \<open>id'\<close> because \<open>id\<close> is the identity function of HOL). The three DATETIME
  columns hold \<open>CURRENT_TIMESTAMP\<close> values; they are modelled as the number of seconds
  on the server's clock, which is how both SQLite's \<open>ORDER BY createdAt\<close> and the
  JavaScript \<open>new Date(a.createdAt) - new Date(b.createdAt)\<close> compare them.
  A nullable column is an \<open>option\<close>.
\<close>

datatype precedence = Primary | Secondary

record contact =
  id' :: nat
  phoneNumber :: "string option"
  email :: "string option"
  linkedId :: "nat option"
  linkPrecedence :: precedence
  createdAt :: nat
  updatedAt :: nat
  deletedAt :: "nat option"

text \<open>
  The database is the list of rows in rowid order together with the AUTOINCREMENT
  counter (the largest rowid ever handed out, SQLite's \<open>sqlite_sequence\<close>).
\<close>

record database =
  rows :: "contact list"
  seq :: nat

definition emptyDb :: database where
  "emptyDb = \<lparr>rows = [], seq = 0\<rparr>"

text \<open>
  Every call of \<open>db.all\<close> and \<open>db.run\<close> in the \<open>/identify\<close> handler has its own error
  callback. A call site is named by a \<open>dbcall\<close>; the environment of a request says
  which calls the store fails (\<open>fails :: dbcall \<Rightarrow> bool\<close>) and how long the store
  takes to answer a call (\<open>delay :: dbcall \<Rightarrow> nat\<close>).
\<close>

datatype dbcall =
    FindContacts
  | InsertPrimary
  | ChainLookup "nat option"
  | InsertSecondary
  | ChainRefresh
  | Demote nat
  | Reparent nat
  | MergedChain
  | InsertMergedSecondary
  | FinalChain

section \<open>JavaScript values\<close>

text \<open>
  The request fields \<open>email\<close> and \<open>phoneNumber\<close> are strings or absent
  (\<open>undefined\<close>/\<open>null\<close>): a \<open>string option\<close>. JavaScript treats an absent value and
  the empty string as falsy.
\<close>

definition truthy :: "string option \<Rightarrow> bool" where
  "truthy v = (case v of None \<Rightarrow> False | Some s \<Rightarrow> s \<noteq> [])"

text \<open>\<open>v || null\<close>\<close>

definition orNull :: "string option \<Rightarrow> string option" where
  "orNull v = (if truthy v then v else None)"

text \<open>\<open>xs.filter(Boolean)\<close> on a list of nullable strings keeps the non-empty strings.\<close>

fun filterBoolean :: "string option list \<Rightarrow> string list" where
  "filterBoolean [] = []"
| "filterBoolean (None # vs) = filterBoolean vs"
| "filterBoolean (Some s # vs) = (if s = [] then filterBoolean vs else s # filterBoolean vs)"

text \<open>
  \<open>[...new Set(xs)]\<close>: the Set keeps the insertion order and ignores a value it already
  holds, so the first occurrence of each value survives. (\<open>remdups\<close> of HOL keeps the
  last occurrence and is not what the code does.)
\<close>

primrec newSet :: "'a list \<Rightarrow> 'a list \<Rightarrow> 'a list" where
  "newSet [] seen = seen"
| "newSet (x # xs) seen = newSet xs (if x \<in> set seen then seen else seen @ [x])"

text \<open>The JSON bodies passed to \<open>res.json\<close>.\<close>

datatype json =
    JNum nat
  | JStr string
  | JArr "json list"
  | JObj "(string \<times> json) list"

text \<open>
  What a request ends with: a response with its HTTP status and body, or an exception
  thrown inside a database callback, which nothing catches and after which no response
  is sent.
\<close>

datatype outcome = Response nat json | Uncaught

definition errorBody :: "string \<Rightarrow> json" where
  "errorBody msg = JObj [(''error'', JStr msg)]"

section \<open>Queries\<close>

text \<open>
  \<open>findContactsByEmailOrPhone\<close>: the rows that are not deleted and whose email equals
  the given email (if it is truthy) or whose phoneNumber equals the given phone (if it is
  truthy). The query has no \<open>ORDER BY\<close>. SQLite answers the \<open>OR\<close> with a search of the
  index \<open>idx_email\<close> followed by a search of the index \<open>idx_phone\<close> that skips the rows
  it has already returned: the rows matching the email come first, in rowid order, then
  the rows matching only the phone, in rowid order. The handler calls the function only
  when one of the two values is truthy (with neither, the text of the query would be
  malformed).
\<close>

definition findContactsByEmailOrPhone ::
  "database \<Rightarrow> string option \<Rightarrow> string option \<Rightarrow> contact list" where
  "findContactsByEmailOrPhone db em ph =
     filter (\<lambda>c. deletedAt c = None \<and> truthy em \<and> email c = em) (rows db) @
     filter (\<lambda>c. deletedAt c = None \<and> truthy ph \<and> phoneNumber c = ph \<and>
                  \<not> (truthy em \<and> email c = em)) (rows db)"

text \<open>
  \<open>getAllContactsInChain\<close> runs a recursive common table expression. Its recursive
  step joins \<open>Contact c\<close> with a row \<open>cc\<close> of the chain \<open>ON c.linkedId = cc.id WHERE
  c.deletedAt IS NULL\<close>. (The query selects every column but \<open>deletedAt\<close>, which is
  null in each row it returns.)
\<close>

definition children :: "contact list \<Rightarrow> contact \<Rightarrow> contact list" where
  "children rs r = filter (\<lambda>c. linkedId c = Some (id' r) \<and> deletedAt c = None) rs"

text \<open>
  SQLite evaluates \<open>WITH RECURSIVE ... UNION ALL\<close> with a queue: it takes a row from the
  queue, adds it to the result, and appends the rows that the recursive step yields
  for it. With \<open>UNION ALL\<close> nothing stops a cycle of \<open>linkedId\<close>s, so the query
  need not return: \<open>None\<close> is the query that runs forever.
\<close>

partial_function (option) contact_chain ::
  "contact list \<Rightarrow> contact list \<Rightarrow> contact list \<Rightarrow> contact list option" where
  "contact_chain rs queue acc =
     (case queue of
        [] \<Rightarrow> Some (rev acc)
      | r # q \<Rightarrow> contact_chain rs (q @ children rs r) (r # acc))"

declare contact_chain.simps [code]

text \<open>
  \<open>ORDER BY linkPrecedence DESC, createdAt ASC\<close>. The column is TEXT with the values
  \<open>'primary'\<close> and \<open>'secondary'\<close>; \<open>'secondary'\<close> is the greater string, so in
  descending order the secondary rows come first. The sort key puts the rows in that
  order; rows with equal keys keep the order of the chain (SQL leaves it open).
\<close>

definition chainOrder :: "contact \<Rightarrow> nat \<times> nat" where
  "chainOrder c = ((case linkPrecedence c of Secondary \<Rightarrow> 0 | Primary \<Rightarrow> 1), createdAt c)"

text \<open>
  The initial select of the chain: \<open>WHERE (id = ? OR linkedId = ?) AND deletedAt IS NULL
  AND linkPrecedence = 'primary'\<close>, both parameters bound to \<open>contactId\<close>. A
  \<open>contactId\<close> of \<open>null\<close> compares equal to nothing.
\<close>

definition chainRoots :: "database \<Rightarrow> nat option \<Rightarrow> contact list" where
  "chainRoots db contactId =
     filter (\<lambda>c. (case contactId of None \<Rightarrow> False
                  | Some k \<Rightarrow> id' c = k \<or> linkedId c = Some k) \<and>
                 deletedAt c = None \<and> linkPrecedence c = Primary)
            (rows db)"

definition getAllContactsInChain :: "database \<Rightarrow> nat option \<Rightarrow> contact list option" where
  "getAllContactsInChain db contactId =
     map_option (sort_key chainOrder) (contact_chain (rows db) (chainRoots db contactId) [])"

section \<open>Statements\<close>

text \<open>
  \<open>INSERT INTO Contact (phoneNumber, email, linkedId, linkPrecedence, createdAt,
  updatedAt) VALUES (?, ?, ?, ..., CURRENT_TIMESTAMP, CURRENT_TIMESTAMP)\<close>. The new rowid
  is one more than the largest rowid that ever existed; \<open>this.lastID\<close> is the \<open>seq\<close>
  of the database afterwards.
\<close>

definition nextId :: "database \<Rightarrow> nat" where
  "nextId db = Suc (fold max (map id' (rows db)) (seq db))"

definition insertContact ::
  "nat \<Rightarrow> string option \<Rightarrow> string option \<Rightarrow> nat option \<Rightarrow> precedence \<Rightarrow> database \<Rightarrow> database" where
  "insertContact now ph em linked prec db =
     \<lparr>rows = rows db @
        [\<lparr>id' = nextId db, phoneNumber = ph, email = em, linkedId = linked,
          linkPrecedence = prec, createdAt = now, updatedAt = now, deletedAt = None\<rparr>],
      seq = nextId db\<rparr>"

text \<open>
  \<open>UPDATE Contact SET linkPrecedence = 'secondary', linkedId = ?, updatedAt =
  CURRENT_TIMESTAMP WHERE id = ?\<close>
\<close>

definition demote :: "nat \<Rightarrow> nat \<Rightarrow> nat \<Rightarrow> database \<Rightarrow> database" where
  "demote now oldestId cid db =
     db\<lparr>rows := map (\<lambda>c. if id' c = cid
                           then c\<lparr>linkPrecedence := Secondary, linkedId := Some oldestId,
                                  updatedAt := now\<rparr>
                           else c) (rows db)\<rparr>"

text \<open>
  \<open>UPDATE Contact SET linkedId = ?, updatedAt = CURRENT_TIMESTAMP WHERE linkedId = ? AND
  id != ?\<close>
\<close>

definition updateChildren :: "nat \<Rightarrow> nat \<Rightarrow> nat \<Rightarrow> database \<Rightarrow> database" where
  "updateChildren now oldestId cid db =
     db\<lparr>rows := map (\<lambda>c. if linkedId c = Some cid \<and> id' c \<noteq> cid
                           then c\<lparr>linkedId := Some oldestId, updatedAt := now\<rparr>
                           else c) (rows db)\<rparr>"

section \<open>The response\<close>

text \<open>
  \<open>returnResponse\<close>. \<open>contacts.find\<close> yields \<open>undefined\<close> when the chain has no primary
  row, and reading \<open>primary.email\<close> then throws.
\<close>

definition responseEmails :: "contact \<Rightarrow> contact list \<Rightarrow> string list" where
  "responseEmails primary secondaries =
     newSet (filterBoolean (email primary # map email secondaries)) []"

definition responsePhoneNumbers :: "contact \<Rightarrow> contact list \<Rightarrow> string list" where
  "responsePhoneNumbers primary secondaries =
     newSet (filterBoolean (phoneNumber primary # map phoneNumber secondaries)) []"

definition contactBody :: "nat \<Rightarrow> string list \<Rightarrow> string list \<Rightarrow> nat list \<Rightarrow> json" where
  "contactBody pid emails phoneNumbers secondaryIds =
     JObj [(''contact'',
            JObj [(''primaryContatctId'', JNum pid),
                  (''emails'', JArr (map JStr emails)),
                  (''phoneNumbers'', JArr (map JStr phoneNumbers)),
                  (''secondaryContactIds'', JArr (map JNum secondaryIds))])]"

definition returnResponse :: "contact list \<Rightarrow> outcome" where
  "returnResponse contacts =
     (case find (\<lambda>c. linkPrecedence c = Primary) contacts of
        None \<Rightarrow> Uncaught
      | Some primary \<Rightarrow>
          (let secondaries = filter (\<lambda>c. linkPrecedence c = Secondary) contacts
           in Response 200
                (contactBody (id' primary)
                   (responseEmails primary secondaries)
                   (responsePhoneNumbers primary secondaries)
                   (map id' secondaries))))"

section \<open>The identify handler\<close>

text \<open>
  \<open>chainId = contact.linkPrecedence === 'primary' ? contact.id : contact.linkedId\<close>
\<close>

definition chainIdOf :: "contact \<Rightarrow> nat option" where
  "chainIdOf c = (if linkPrecedence c = Primary then Some (id' c) else linkedId c)"

text \<open>
  The \<open>forEach\<close> over the matches issues one chain query per match, all at once; the
  store runs them in parallel and each callback sets its key of the Map
  \<open>contactChains\<close> when it arrives. The callbacks arrive in the order of the delays of
  their queries; those with the same delay arrive in the order in which they were
  issued (\<open>sort_key\<close> is stable). The delay of a query is given per chain: the queries
  of one chain set the same key to the same rows, so only the first of them decides
  the place of the key in the Map, and every order of the keys is the order of some
  \<open>delay\<close>.
\<close>

definition arrivalOrder :: "(dbcall \<Rightarrow> nat) \<Rightarrow> contact list \<Rightarrow> contact list" where
  "arrivalOrder delay existingContacts =
     sort_key (\<lambda>c. delay (ChainLookup (chainIdOf c))) existingContacts"

text \<open>
  A JavaScript Map keeps its keys in the order of their first insertion and \<open>set\<close> on
  a key it holds replaces the value in place, which is \<open>AList.update\<close>. The list of
  contacts is the list of matches in the order in which their callbacks arrive.
\<close>

fun collectChains ::
  "database \<Rightarrow> contact list \<Rightarrow> (nat option \<times> contact list) list
     \<Rightarrow> (nat option \<times> contact list) list option" where
  "collectChains db [] contactChains = Some contactChains"
| "collectChains db (c # cs) contactChains =
     (case getAllContactsInChain db (chainIdOf c) of
        None \<Rightarrow> None
      | Some chainContacts \<Rightarrow>
          collectChains db cs (AList.update (chainIdOf c) chainContacts contactChains))"

text \<open>
  The merge. \<open>allContacts\<close> is the concatenation of the chains in Map order,
  \<open>primaryContacts\<close> its primary rows, sorted by \<open>createdAt\<close> with the comparator
  \<open>new Date(a.createdAt) - new Date(b.createdAt)\<close>. \<open>Array.prototype.sort\<close> is stable,
  as \<open>sort_key\<close> is.
\<close>

definition allContactsOf :: "(nat option \<times> contact list) list \<Rightarrow> contact list" where
  "allContactsOf contactChains = concat (map snd contactChains)"

definition primaryContactsOf :: "(nat option \<times> contact list) list \<Rightarrow> contact list" where
  "primaryContactsOf contactChains =
     sort_key createdAt (filter (\<lambda>c. linkPrecedence c = Primary) (allContactsOf contactChains))"

text \<open>
  One promise of \<open>updatePromises\<close>: demote the contact; when that succeeded, re-link the
  rows that pointed at it. A failed statement rejects the promise. \<open>Promise.all\<close> does
  not stop the other promises when one rejects, so every promise runs; the flag
  remembers whether one of them was rejected. The promises are run one after the other
  in the order of \<open>primaryContacts.slice(1)\<close>, each with its two statements.
\<close>

definition updatePromise ::
  "(dbcall \<Rightarrow> bool) \<Rightarrow> nat \<Rightarrow> nat \<Rightarrow> contact \<Rightarrow> database \<times> bool \<Rightarrow> database \<times> bool" where
  "updatePromise fails now oldestId c st =
     (case st of (db, rejected) \<Rightarrow>
        if fails (Demote (id' c)) then (db, True)
        else let db1 = demote now oldestId (id' c) db
             in if fails (Reparent (id' c)) then (db1, True)
                else (updateChildren now oldestId (id' c) db1, rejected))"

definition updatePromises ::
  "(dbcall \<Rightarrow> bool) \<Rightarrow> nat \<Rightarrow> nat \<Rightarrow> contact list \<Rightarrow> database \<Rightarrow> database \<times> bool" where
  "updatePromises fails now oldestId cs db =
     fold (updatePromise fails now oldestId) cs (db, False)"

definition hasEmailIn :: "string option \<Rightarrow> contact list \<Rightarrow> bool" where
  "hasEmailIn em contacts = (truthy em \<and> (\<exists>c \<in> set contacts. email c = em))"

definition hasPhoneIn :: "string option \<Rightarrow> contact list \<Rightarrow> bool" where
  "hasPhoneIn ph contacts = (truthy ph \<and> (\<exists>c \<in> set contacts. phoneNumber c = ph))"

definition mergeChains ::
  "(dbcall \<Rightarrow> bool) \<Rightarrow> nat \<Rightarrow> database \<Rightarrow> string option \<Rightarrow> string option
     \<Rightarrow> (nat option \<times> contact list) list \<Rightarrow> (database \<times> outcome) option" where
  "mergeChains fails now db em ph contactChains =
     (let allContacts = allContactsOf contactChains in
      case primaryContactsOf contactChains of
        [] \<Rightarrow> Some (db, Response 500 (errorBody ''Failed to merge contacts''))
      | oldestPrimary # others \<Rightarrow>
          (case updatePromises fails now (id' oldestPrimary) others db of
             (db1, rejected) \<Rightarrow>
               if rejected then Some (db1, Response 500 (errorBody ''Failed to merge contacts''))
               else if (\<not> truthy em \<or> hasEmailIn em allContacts) \<and>
                       (\<not> truthy ph \<or> hasPhoneIn ph allContacts)
               then
                 (if fails MergedChain
                  then Some (db1, Response 500 (errorBody ''Failed to get merged contacts''))
                  else (case getAllContactsInChain db1 (Some (id' oldestPrimary)) of
                          None \<Rightarrow> None
                        | Some mergedContacts \<Rightarrow> Some (db1, returnResponse mergedContacts)))
               else
                 (if fails InsertMergedSecondary
                  then Some (db1, Response 500 (errorBody ''Failed to create secondary contact''))
                  else let db2 = insertContact now (orNull ph) (orNull em)
                                   (Some (id' oldestPrimary)) Secondary db1
                       in if fails FinalChain
                          then Some (db2, Response 500 (errorBody ''Failed to get final contacts''))
                          else (case getAllContactsInChain db2 (Some (id' oldestPrimary)) of
                                  None \<Rightarrow> None
                                | Some finalContacts \<Rightarrow>
                                    Some (db2, returnResponse finalContacts)))))"

text \<open>
  The single-chain branch of \<open>processContactChains\<close>. When the chain has no primary
  row, \<open>primaryContact\<close> is \<open>undefined\<close> and \<open>primaryContact.id\<close> throws inside the
  callback.
\<close>

definition singleChain ::
  "(dbcall \<Rightarrow> bool) \<Rightarrow> nat \<Rightarrow> database \<Rightarrow> string option \<Rightarrow> string option
     \<Rightarrow> contact list \<Rightarrow> (database \<times> outcome) option" where
  "singleChain fails now db em ph contacts =
     (let hasEmail = hasEmailIn em contacts;
          hasPhone = hasPhoneIn ph contacts
      in if \<not> hasEmail \<or> \<not> hasPhone then
           (case find (\<lambda>c. linkPrecedence c = Primary) contacts of
              None \<Rightarrow> Some (db, Uncaught)
            | Some primaryContact \<Rightarrow>
                if fails InsertSecondary
                then Some (db, Response 500 (errorBody ''Failed to create secondary contact''))
                else let db1 = insertContact now (orNull ph) (orNull em)
                                 (Some (id' primaryContact)) Secondary db
                     in if fails ChainRefresh
                        then Some (db1, Response 500 (errorBody ''Failed to refresh contacts''))
                        else (case getAllContactsInChain db1 (Some (id' primaryContact)) of
                                None \<Rightarrow> None
                              | Some updatedContacts \<Rightarrow>
                                  Some (db1, returnResponse updatedContacts)))
         else Some (db, returnResponse contacts))"

text \<open>
  \<open>processContactChains\<close> takes the single-chain branch when the Map has one key and
  the merge branch when it has more. With no key neither branch runs and the request
  is never answered; the handler does not call it then.
\<close>

definition processContactChains ::
  "(dbcall \<Rightarrow> bool) \<Rightarrow> nat \<Rightarrow> database \<Rightarrow> string option \<Rightarrow> string option
     \<Rightarrow> (nat option \<times> contact list) list \<Rightarrow> (database \<times> outcome) option" where
  "processContactChains fails now db em ph contactChains =
     (case contactChains of
        [] \<Rightarrow> None
      | [(chainId, contacts)] \<Rightarrow> singleChain fails now db em ph contacts
      | _ \<Rightarrow> mergeChains fails now db em ph contactChains)"

text \<open>
  The handler of \<open>POST /identify\<close>. In the first response \<open>email ? [email] : []\<close> is
  \<open>filterBoolean [em]\<close>. \<open>fails\<close> and \<open>delay\<close> are the behaviour of the store during the
  request and \<open>now\<close> is the value of \<open>CURRENT_TIMESTAMP\<close> during it. The result is the database after the request and what the client gets;
  \<open>None\<close> is a request that never ends (a chain query that does not return). A failed
  chain lookup answers 500 and \<open>processContactChains\<close> is never reached, because the
  counter of processed contacts stays below the number of matches.
\<close>

definition identify ::
  "(dbcall \<Rightarrow> bool) \<Rightarrow> (dbcall \<Rightarrow> nat) \<Rightarrow> nat \<Rightarrow> database \<Rightarrow> string option
     \<Rightarrow> string option \<Rightarrow> (database \<times> outcome) option" where
  "identify fails delay now db em ph =
     (if \<not> truthy em \<and> \<not> truthy ph
      then Some (db, Response 400 (errorBody ''Either email or phoneNumber must be provided''))
      else if fails FindContacts
      then Some (db, Response 500 (errorBody ''Internal server error''))
      else
        let existingContacts = findContactsByEmailOrPhone db em ph in
        if existingContacts = [] then
          (if fails InsertPrimary
           then Some (db, Response 500 (errorBody ''Failed to create contact''))
           else let db1 = insertContact now (orNull ph) (orNull em) None Primary db
                in Some (db1, Response 200
                           (contactBody (seq db1)
                              (filterBoolean [em]) (filterBoolean [ph]) [])))
        else if \<exists>c \<in> set existingContacts. fails (ChainLookup (chainIdOf c))
        then Some (db, Response 500 (errorBody ''Failed to process contacts''))
        else
          (case collectChains db (arrivalOrder delay existingContacts) [] of
             None \<Rightarrow> None
           | Some contactChains \<Rightarrow> processContactChains fails now db em ph contactChains))"

section \<open>Notions used by the properties\<close>

text \<open>
  The data model's invariants on the table: ids are unique; a primary contact has no
  \<open>linkedId\<close> and is not deleted; the \<open>linkedId\<close> of a secondary contact is the id of a
  primary contact of the table.
\<close>

definition chainsWellFormed :: "database \<Rightarrow> bool" where
  "chainsWellFormed db \<longleftrightarrow>
     distinct (map id' (rows db)) \<and>
     (\<forall>c \<in> set (rows db).
        (linkPrecedence c = Primary \<longrightarrow> linkedId c = None \<and> deletedAt c = None) \<and>
        (linkPrecedence c = Secondary \<longrightarrow>
           (\<exists>p \<in> set (rows db). linkedId c = Some (id' p) \<and> linkPrecedence p = Primary)))"

text \<open>
  The rows that the chain query returns when the table is well formed: the roots and
  the rows linked to them, in the order of the query.
\<close>

definition chainOf :: "database \<Rightarrow> nat option \<Rightarrow> contact list" where
  "chainOf db contactId =
     sort_key chainOrder
       (chainRoots db contactId @ concat (map (children (rows db)) (chainRoots db contactId)))"

text \<open>
  The Map \<open>contactChains\<close> that the matches \<open>ms\<close> produce when every chain query returns
  \<open>chainOf\<close>.
\<close>

definition chainsOf ::
  "database \<Rightarrow> contact list \<Rightarrow> (nat option \<times> contact list) list
     \<Rightarrow> (nat option \<times> contact list) list" where
  "chainsOf db ms acc = fold (\<lambda>c. AList.update (chainIdOf c) (chainOf db (chainIdOf c))) ms acc"

text \<open>\<open>k\<close> is the id of a primary contact of the table.\<close>

definition isPrimaryId :: "database \<Rightarrow> nat \<Rightarrow> bool" where
  "isPrimaryId db k \<longleftrightarrow> (\<exists>p \<in> set (rows db). id' p = k \<and> linkPrecedence p = Primary)"

text \<open>
  A sequence of requests, each with the behaviour of the store and the clock during
  it, run one after the other from a database. The result is the database after the
  last request and the list of the outcomes; \<open>None\<close> when a request never ends.
\<close>

type_synonym request =
  "(dbcall \<Rightarrow> bool) \<times> (dbcall \<Rightarrow> nat) \<times> nat \<times> string option \<times> string option"

fun runRequests :: "request list \<Rightarrow> database \<Rightarrow> (database \<times> outcome list) option" where
  "runRequests [] db = Some (db, [])"
| "runRequests ((fails, delay, now, em, ph) # reqs) db =
     (case identify fails delay now db em ph of
        None \<Rightarrow> None
      | Some (db1, out) \<Rightarrow>
          (case runRequests reqs db1 of
             None \<Rightarrow> None
           | Some (db2, outs) \<Rightarrow> Some (db2, out # outs)))"

text \<open>The answer of a merge during which a demotion or a re-linking failed.\<close>

definition mergeInterrupted :: outcome where
  "mergeInterrupted = Response 500 (errorBody ''Failed to merge contacts'')"

text \<open>No stored email or phoneNumber is the empty string.\<close>

definition noEmptyStrings :: "database \<Rightarrow> bool" where
  "noEmptyStrings db \<longleftrightarrow>
     (\<forall>c \<in> set (rows db). email c \<noteq> Some [] \<and> phoneNumber c \<noteq> Some [])"

text \<open>
  What the statements of a merge leave alone in a row, and what the re-linking
  statement sets.
\<close>

definition sameFacts :: "contact \<Rightarrow> contact \<Rightarrow> bool" where
  "sameFacts c c1 \<longleftrightarrow>
     id' c1 = id' c \<and> email c1 = email c \<and> phoneNumber c1 = phoneNumber c \<and>
     createdAt c1 = createdAt c \<and> deletedAt c1 = deletedAt c"

definition relinked :: "nat \<Rightarrow> nat \<Rightarrow> contact \<Rightarrow> bool" where
  "relinked now oldestId c \<longleftrightarrow> linkedId c = Some oldestId \<and> updatedAt c = now"

text \<open>A contact with its empty strings replaced by nulls.\<close>

definition emptyAsNull :: "contact \<Rightarrow> contact" where
  "emptyAsNull c =
     c\<lparr>email := (if email c = Some [] then None else email c),
       phoneNumber := (if phoneNumber c = Some [] then None else phoneNumber c)\<rparr>"

section \<open>Example stores\<close>

text \<open>The store that never fails, and the store that fails one call.\<close>

definition storeOk :: "dbcall \<Rightarrow> bool" where
  "storeOk call = False"

definition failsOnly :: "dbcall \<Rightarrow> dbcall \<Rightarrow> bool" where
  "failsOnly bad call = (call = bad)"

text \<open>
  The store that answers the chain queries in the order in which they were issued, and
  the store that answers the query of one chain after all the others.
\<close>

definition inOrder :: "dbcall \<Rightarrow> nat" where
  "inOrder call = 0"

definition answeredLast :: "nat \<Rightarrow> dbcall \<Rightarrow> nat" where
  "answeredLast k call = (if call = ChainLookup (Some k) then 1 else 0)"

text \<open>
  The rows of the examples: two primary contacts created in the same second, the
  secondary contact that an email-only request adds to the first at second 7, and one
  that adds a phone to the first.
\<close>

definition firstPrimary :: contact where
  "firstPrimary =
     \<lparr>id' = 1, phoneNumber = Some ''1'', email = Some ''a'', linkedId = None,
      linkPrecedence = Primary, createdAt = 5, updatedAt = 5, deletedAt = None\<rparr>"

definition emailOnlySecondary :: contact where
  "emailOnlySecondary =
     \<lparr>id' = 2, phoneNumber = None, email = Some ''a'', linkedId = Some 1,
      linkPrecedence = Secondary, createdAt = 7, updatedAt = 7, deletedAt = None\<rparr>"

definition secondPrimary :: contact where
  "secondPrimary =
     \<lparr>id' = 2, phoneNumber = Some ''2'', email = Some ''b'', linkedId = None,
      linkPrecedence = Primary, createdAt = 5, updatedAt = 5, deletedAt = None\<rparr>"

definition phoneSecondary :: contact where
  "phoneSecondary =
     \<lparr>id' = 3, phoneNumber = Some ''4'', email = Some ''a'', linkedId = Some 1,
      linkPrecedence = Secondary, createdAt = 5, updatedAt = 5, deletedAt = None\<rparr>"

text \<open>One customer, created at second 5 by the request \<open>{email: a, phoneNumber: 1}\<close>.\<close>

definition oneDb :: database where
  "oneDb = \<lparr>rows = [firstPrimary], seq = 1\<rparr>"

text \<open>
  The store after the requests \<open>(a, 1)\<close>, \<open>(b, 2)\<close> and \<open>(a, 4)\<close>, all at second 5, and
  the chains that the request \<open>(b, 4)\<close> collects in it.
\<close>

definition tieDb :: database where
  "tieDb = \<lparr>rows = [firstPrimary, secondPrimary, phoneSecondary], seq = 3\<rparr>"

definition tieRequests :: "request list" where
  "tieRequests =
     [(storeOk, inOrder, 5, Some ''a'', Some ''1''),
      (storeOk, inOrder, 5, Some ''b'', Some ''2''),
      (storeOk, inOrder, 5, Some ''a'', Some ''4'')]"

definition mergeRequests :: "request list" where
  "mergeRequests = tieRequests @ [(storeOk, inOrder, 9, Some ''b'', Some ''4'')]"

definition tieChains :: "(nat option \<times> contact list) list" where
  "tieChains = [(Some 2, [secondPrimary]), (Some 1, [phoneSecondary, firstPrimary])]"

text \<open>The same store after the merge at second 9, and after a merge that the store
  interrupted between the demotion of contact 1 and the re-linking of its secondaries.\<close>

definition tieDbMerged :: database where
  "tieDbMerged =
     \<lparr>rows = [firstPrimary\<lparr>linkPrecedence := Secondary, linkedId := Some 2, updatedAt := 9\<rparr>,
              secondPrimary,
              phoneSecondary\<lparr>linkedId := Some 2, updatedAt := 9\<rparr>],
      seq = 3\<rparr>"

definition tieDbInterrupted :: database where
  "tieDbInterrupted =
     \<lparr>rows = [firstPrimary\<lparr>linkPrecedence := Secondary, linkedId := Some 2, updatedAt := 9\<rparr>,
              secondPrimary,
              phoneSecondary],
      seq = 3\<rparr>"

text \<open>A chain whose primary contact has the empty string as its email.\<close>

definition blankPrimary :: contact where
  "blankPrimary =
     \<lparr>id' = 1, phoneNumber = Some ''1'', email = Some [], linkedId = None,
      linkPrecedence = Primary, createdAt = 5, updatedAt = 5, deletedAt = None\<rparr>"

text \<open>
  Two customers, the second with a secondary contact that was soft-deleted at second 6,
  and the same store after the merge at second 9.
\<close>

definition deletedSecondary :: contact where
  "deletedSecondary =
     \<lparr>id' = 3, phoneNumber = Some ''4'', email = Some ''b'', linkedId = Some 2,
      linkPrecedence = Secondary, createdAt = 5, updatedAt = 5, deletedAt = Some 6\<rparr>"

definition deletedDb :: database where
  "deletedDb = \<lparr>rows = [firstPrimary, secondPrimary, deletedSecondary], seq = 3\<rparr>"

definition deletedDbMerged :: database where
  "deletedDbMerged =
     \<lparr>rows = [firstPrimary,
              secondPrimary\<lparr>linkPrecedence := Secondary, linkedId := Some 1, updatedAt := 9\<rparr>,
              deletedSecondary\<lparr>linkedId := Some 1, updatedAt := 9\<rparr>],
      seq = 3\<rparr>"

section \<open>Evaluating the model\<close>

lemma contact_chain_Nil: "contact_chain rs [] acc = Some (rev acc)"
  by (simp add: contact_chain.simps)

lemma contact_chain_Cons:
  "contact_chain rs (r # q) acc = contact_chain rs (q @ children rs r) (r # acc)"
  by (subst contact_chain.simps) simp

lemmas identify_unfold =
  identify_def truthy_def findContactsByEmailOrPhone_def insertContact_def nextId_def
  orNull_def processContactChains_def singleChain_def mergeChains_def
  getAllContactsInChain_def chainRoots_def children_def chainOrder_def chainIdOf_def
  hasEmailIn_def hasPhoneIn_def returnResponse_def responseEmails_def
  responsePhoneNumbers_def allContactsOf_def primaryContactsOf_def updatePromises_def
  updatePromise_def demote_def updateChildren_def storeOk_def failsOnly_def
  arrivalOrder_def inOrder_def answeredLast_def
  contact_chain_Nil contact_chain_Cons eval_nat_numeral

lemma findContacts_iff:
  "c \<in> set (findContactsByEmailOrPhone db em ph) \<longleftrightarrow>
     c \<in> set (rows db) \<and> deletedAt c = None \<and>
     (truthy em \<and> email c = em \<or> truthy ph \<and> phoneNumber c = ph)"
  by (auto simp: findContactsByEmailOrPhone_def)

lemma set_arrivalOrder [simp]: "set (arrivalOrder delay ms) = set ms"
  by (simp add: arrivalOrder_def)

lemma arrivalOrder_Nil [simp]: "arrivalOrder delay ms = [] \<longleftrightarrow> ms = []"
  using set_arrivalOrder [of delay ms] by (metis set_empty)

lemmas example_rows =
  firstPrimary_def emailOnlySecondary_def secondPrimary_def phoneSecondary_def
  blankPrimary_def deletedSecondary_def

lemma oneDb_reached:
  "identify storeOk inOrder 5 emptyDb (Some ''a'') (Some ''1'') =
     Some (oneDb, Response 200 (contactBody 1 [''a''] [''1''] []))"
  by (simp add: identify_unfold emptyDb_def oneDb_def example_rows)

lemma tieDb_reached:
  "runRequests tieRequests emptyDb =
     Some (tieDb, [Response 200 (contactBody 1 [''a''] [''1''] []),
                   Response 200 (contactBody 2 [''b''] [''2''] []),
                   Response 200 (contactBody 1 [''a''] [''1'', ''4''] [3])])"
  by (simp add: tieRequests_def identify_unfold emptyDb_def tieDb_def example_rows)

lemma tieChains_collected:
  "collectChains tieDb
     (arrivalOrder inOrder (findContactsByEmailOrPhone tieDb (Some ''b'') (Some ''4''))) [] =
     Some tieChains"
  by (simp add: identify_unfold tieDb_def tieChains_def example_rows)

lemma tieDb_merge:
  "identify storeOk inOrder 9 tieDb (Some ''b'') (Some ''4'') =
     Some (tieDbMerged, Response 200 (contactBody 2 [''b'', ''a''] [''2'', ''1'', ''4''] [1, 3]))"
  by (simp add: identify_unfold tieDb_def tieDbMerged_def example_rows)

lemma deletedDb_merge:
  "identify storeOk inOrder 9 deletedDb (Some ''a'') (Some ''2'') =
     Some (deletedDbMerged, Response 200 (contactBody 1 [''a'', ''b''] [''1'', ''2''] [2]))"
  by (simp add: identify_unfold deletedDb_def deletedDbMerged_def example_rows)

section \<open>Extending a chain\<close>

text \<open>
  C1 (the code departs from the claim). The store holds one chain, whose primary has the
  email \<open>a\<close> and the phone \<open>1\<close>. The request \<open>{email: a}\<close> supplies only an email, and
  that email is already in the chain. The single-chain branch tests
  \<open>!hasEmail || !hasPhone\<close>, and \<open>hasPhone\<close> is falsy when no phone is supplied, so the
  request inserts a secondary contact (id 2, email \<open>a\<close>, no phone). The merge branch
  tests \<open>(!email || hasEmail) && (!phoneNumber || hasPhone)\<close> instead and would not
  insert. (The request has one match, so the order of the answers plays no part.)
\<close>

theorem C1_email_only_request_inserts:
  "collectChains oneDb (findContactsByEmailOrPhone oneDb (Some ''a'') None) [] =
     Some [(Some 1, [firstPrimary])] \<and>
   email firstPrimary = Some ''a'' \<and>
   identify storeOk inOrder 7 oneDb (Some ''a'') None =
     Some (\<lparr>rows = [firstPrimary,
                    \<lparr>id' = 2, phoneNumber = None, email = Some ''a'', linkedId = Some 1,
                     linkPrecedence = Secondary, createdAt = 7, updatedAt = 7,
                     deletedAt = None\<rparr>],
            seq = 2\<rparr>,
           Response 200 (contactBody 1 [''a''] [''1''] [2]))"
  by (simp add: identify_unfold oneDb_def example_rows)

section \<open>Resolving a chain\<close>

text \<open>
  C3 (the code departs from the claim). Resolving the chain of contact 1 in the store
  \<open>tieDb\<close> returns the secondary contact 3 first and the primary contact 1 last:
  \<open>ORDER BY linkPrecedence DESC\<close> sorts \<open>'secondary'\<close> before \<open>'primary'\<close>. The same
  holds for every chain of a well-formed table (\<open>wf_chain_secondaries_first\<close> below).
\<close>

theorem C3_primary_is_listed_last:
  "getAllContactsInChain tieDb (chainIdOf phoneSecondary) = Some [phoneSecondary, firstPrimary] \<and>
   getAllContactsInChain tieDb (chainIdOf firstPrimary) = Some [phoneSecondary, firstPrimary] \<and>
   linkPrecedence phoneSecondary = Secondary \<and> linkPrecedence firstPrimary = Primary"
  by (simp add: identify_unfold tieDb_def example_rows)

section \<open>Building the response\<close>

lemma filterBoolean_Cons:
  "filterBoolean (v # vs) =
     (case v of None \<Rightarrow> [] | Some s \<Rightarrow> if s = [] then [] else [s]) @ filterBoolean vs"
  by (cases v) auto

lemma filterBoolean_emptyAsNull_email:
  "filterBoolean (map (\<lambda>c. email (emptyAsNull c)) cs) = filterBoolean (map email cs)"
  by (induction cs) (auto simp: emptyAsNull_def filterBoolean_Cons simp del: filterBoolean.simps)

lemma filterBoolean_emptyAsNull_phone:
  "filterBoolean (map (\<lambda>c. phoneNumber (emptyAsNull c)) cs) = filterBoolean (map phoneNumber cs)"
  by (induction cs) (auto simp: emptyAsNull_def filterBoolean_Cons simp del: filterBoolean.simps)

lemma find_emptyAsNull:
  "find (\<lambda>c. linkPrecedence c = Primary) (map emptyAsNull cs) =
     map_option emptyAsNull (find (\<lambda>c. linkPrecedence c = Primary) cs)"
  by (induction cs) (auto simp: emptyAsNull_def)

lemma filter_emptyAsNull:
  "filter (\<lambda>c. linkPrecedence c = Secondary) (map emptyAsNull cs) =
     map emptyAsNull (filter (\<lambda>c. linkPrecedence c = Secondary) cs)"
  by (induction cs) (auto simp: emptyAsNull_def)

lemma responseEmails_emptyAsNull:
  "responseEmails (emptyAsNull p) (map emptyAsNull ss) = responseEmails p ss"
  using filterBoolean_emptyAsNull_email [of "p # ss"]
  by (simp add: responseEmails_def comp_def del: filterBoolean.simps)

lemma responsePhoneNumbers_emptyAsNull:
  "responsePhoneNumbers (emptyAsNull p) (map emptyAsNull ss) = responsePhoneNumbers p ss"
  using filterBoolean_emptyAsNull_phone [of "p # ss"]
  by (simp add: responsePhoneNumbers_def comp_def del: filterBoolean.simps)

lemma id_emptyAsNull: "id' (emptyAsNull c) = id' c" by (simp add: emptyAsNull_def)

lemma newSet_set: "set (newSet xs seen) = set seen \<union> set xs"
  by (induction xs arbitrary: seen) auto

lemma filterBoolean_set: "set (filterBoolean vs) = {s. s \<noteq> [] \<and> Some s \<in> set vs}"
  by (induction vs rule: filterBoolean.induct) auto

lemma responseEmails_set:
  "set (responseEmails p ss) = {e. e \<noteq> [] \<and> (\<exists>c \<in> set (p # ss). email c = Some e)}"
  by (auto simp: responseEmails_def newSet_set filterBoolean_set image_iff
      simp del: filterBoolean.simps) metis

lemma responsePhoneNumbers_set:
  "set (responsePhoneNumbers p ss) =
     {n. n \<noteq> [] \<and> (\<exists>c \<in> set (p # ss). phoneNumber c = Some n)}"
  by (auto simp: responsePhoneNumbers_def newSet_set filterBoolean_set image_iff
      simp del: filterBoolean.simps) metis

lemma returnResponse_emptyAsNull: "returnResponse (map emptyAsNull contacts) = returnResponse contacts"
  by (simp add: returnResponse_def find_emptyAsNull filter_emptyAsNull
      responseEmails_emptyAsNull responsePhoneNumbers_emptyAsNull id_emptyAsNull comp_def Let_def
      split: option.splits)

text \<open>
  C9. In the response built from a chain, the lists \<open>emails\<close> and \<open>phoneNumbers\<close> hold
  exactly the non-empty emails and phoneNumbers of the contacts of the chain: the empty
  string is in neither list, so a contact whose email or phoneNumber is the empty
  string contributes nothing there, as a contact with a null does. Replacing the empty
  strings of every contact of the chain by nulls does not change the response.
\<close>

theorem C9_empty_strings_are_omitted_like_nulls:
  assumes "find (\<lambda>c. linkPrecedence c = Primary) contacts = Some primary"
    and "secondaries = filter (\<lambda>c. linkPrecedence c = Secondary) contacts"
    and "emails = responseEmails primary secondaries"
    and "phoneNumbers = responsePhoneNumbers primary secondaries"
  shows "returnResponse contacts =
           Response 200 (contactBody (id' primary) emails phoneNumbers (map id' secondaries)) \<and>
         [] \<notin> set emails \<and> [] \<notin> set phoneNumbers \<and>
         set emails = {e. e \<noteq> [] \<and> (\<exists>c \<in> set (primary # secondaries). email c = Some e)} \<and>
         set phoneNumbers =
           {n. n \<noteq> [] \<and> (\<exists>c \<in> set (primary # secondaries). phoneNumber c = Some n)} \<and>
         returnResponse (map emptyAsNull contacts) = returnResponse contacts"
proof -
  have "returnResponse contacts =
          Response 200 (contactBody (id' primary) emails phoneNumbers (map id' secondaries))"
    using assms by (simp add: returnResponse_def Let_def)
  moreover have "set emails = {e. e \<noteq> [] \<and> (\<exists>c \<in> set (primary # secondaries). email c = Some e)}"
    using assms(3) responseEmails_set by simp
  moreover have "set phoneNumbers =
      {n. n \<noteq> [] \<and> (\<exists>c \<in> set (primary # secondaries). phoneNumber c = Some n)}"
    using assms(4) responsePhoneNumbers_set by simp
  moreover have "[] \<notin> set emails" "[] \<notin> set phoneNumbers"
    using assms(3,4) by (simp_all add: responseEmails_set responsePhoneNumbers_set)
  ultimately show ?thesis using returnResponse_emptyAsNull by blast
qed

theorem C9_witness:
  "email blankPrimary = Some [] \<and>
   returnResponse [blankPrimary, emailOnlySecondary] =
     Response 200 (contactBody 1 (responseEmails blankPrimary [emailOnlySecondary])
       (responsePhoneNumbers blankPrimary [emailOnlySecondary]) [2]) \<and>
   [] \<notin> set (responseEmails blankPrimary [emailOnlySecondary]) \<and>
   [] \<notin> set (responsePhoneNumbers blankPrimary [emailOnlySecondary]) \<and>
   responseEmails blankPrimary [emailOnlySecondary] = [''a''] \<and>
   returnResponse (map emptyAsNull [blankPrimary, emailOnlySecondary]) =
     returnResponse [blankPrimary, emailOnlySecondary]"
  using C9_empty_strings_are_omitted_like_nulls
    [of "[blankPrimary, emailOnlySecondary]" blankPrimary "[emailOnlySecondary]"
        "responseEmails blankPrimary [emailOnlySecondary]"
        "responsePhoneNumbers blankPrimary [emailOnlySecondary]"]
  by (simp add: responseEmails_def example_rows)

lemma newSet_distinct: "distinct seen \<Longrightarrow> distinct (newSet xs seen)"
  by (induction xs arbitrary: seen) auto

lemma newSet_keeps_head: "\<exists>rest. newSet xs (s # ss) = s # rest"
  by (induction xs arbitrary: ss) auto

lemma newSet_first: "\<exists>rest. newSet (x # xs) [] = x # rest"
  using newSet_keeps_head [of xs x "[]"] by simp

lemma responseEmails_distinct: "distinct (responseEmails p ss)"
  by (simp add: responseEmails_def newSet_distinct del: filterBoolean.simps)

lemma responsePhoneNumbers_distinct: "distinct (responsePhoneNumbers p ss)"
  by (simp add: responsePhoneNumbers_def newSet_distinct del: filterBoolean.simps)

lemma responseEmails_first:
  "email p = Some e \<Longrightarrow> e \<noteq> [] \<Longrightarrow> \<exists>rest. responseEmails p ss = e # rest"
  using newSet_first [of e "filterBoolean (map email ss)"] by (simp add: responseEmails_def)

lemma responsePhoneNumbers_first:
  "phoneNumber p = Some n \<Longrightarrow> n \<noteq> [] \<Longrightarrow> \<exists>rest. responsePhoneNumbers p ss = n # rest"
  using newSet_first [of n "filterBoolean (map phoneNumber ss)"]
  by (simp add: responsePhoneNumbers_def)

lemma returnResponse_shape:
  "returnResponse contacts = Response st body \<Longrightarrow>
     st = 200 \<and> (\<exists>pid es ps ids. body = contactBody pid es ps ids)"
  by (auto simp: returnResponse_def Let_def split: option.splits)

lemma singleChain_shape:
  "singleChain fails now db em ph contacts = Some (db', Response 200 body) \<Longrightarrow>
     \<exists>pid es ps ids. body = contactBody pid es ps ids"
  by (auto simp: singleChain_def Let_def split: if_splits option.splits dest: returnResponse_shape)

lemma mergeChains_shape:
  "mergeChains fails now db em ph contactChains = Some (db', Response 200 body) \<Longrightarrow>
     \<exists>pid es ps ids. body = contactBody pid es ps ids"
  by (auto simp: mergeChains_def Let_def split: if_splits option.splits list.splits prod.splits
      dest: returnResponse_shape)

lemma processContactChains_shape:
  "processContactChains fails now db em ph contactChains = Some (db', Response 200 body) \<Longrightarrow>
     \<exists>pid es ps ids. body = contactBody pid es ps ids"
  by (auto simp: processContactChains_def split: list.splits prod.splits
      dest: singleChain_shape mergeChains_shape)

text \<open>
  C8 (as the code has it). The claim names the fields \<open>primaryContactId\<close>, \<open>emails\<close>,
  \<open>phoneNumbers\<close> and \<open>secondaryContactIds\<close>. The first request to an empty store is
  answered with an object whose only key is \<open>contact\<close>; the object under it spells its
  first key \<open>primaryContatctId\<close>. The body differs from the object of the claim.
\<close>

theorem C8_key_spelling_counterexample:
  "identify storeOk inOrder 5 emptyDb (Some ''a'') (Some ''1'') =
     Some (oneDb,
           Response 200
             (JObj [(''contact'',
                JObj [(''primaryContatctId'', JNum 1),
                      (''emails'', JArr [JStr ''a'']),
                      (''phoneNumbers'', JArr [JStr ''1'']),
                      (''secondaryContactIds'', JArr [])])])) \<and>
   JObj [(''contact'',
      JObj [(''primaryContatctId'', JNum 1),
            (''emails'', JArr [JStr ''a'']),
            (''phoneNumbers'', JArr [JStr ''1'']),
            (''secondaryContactIds'', JArr [])])]
     \<noteq> JObj [(''primaryContactId'', JNum 1),
             (''emails'', JArr [JStr ''a'']),
             (''phoneNumbers'', JArr [JStr ''1'']),
             (''secondaryContactIds'', JArr [])]"
  by (simp add: identify_unfold emptyDb_def oneDb_def contactBody_def example_rows)

text \<open>
  C8, amended. The body of every response with status 200 is an object with the single
  key \<open>contact\<close>, whose value is an object with exactly the keys \<open>primaryContatctId\<close> (a
  number), \<open>emails\<close> (a list of strings), \<open>phoneNumbers\<close> (a list of strings) and
  \<open>secondaryContactIds\<close> (a list of numbers), in this order and with these spellings.
\<close>

theorem C8_response_object_shape:
  assumes "identify fails delay now db em ph = Some (db', Response 200 body)"
  shows "\<exists>pid es ps ids.
           body = JObj [(''contact'',
                    JObj [(''primaryContatctId'', JNum pid),
                          (''emails'', JArr (map JStr es)),
                          (''phoneNumbers'', JArr (map JStr ps)),
                          (''secondaryContactIds'', JArr (map JNum ids))])]"
proof -
  have "\<exists>pid es ps ids. body = contactBody pid es ps ids"
    using assms
    by (auto simp: identify_def Let_def split: if_splits option.splits
        dest: processContactChains_shape)
  then show ?thesis by (simp add: contactBody_def)
qed

theorem C8_witness:
  "\<exists>pid es ps ids.
     contactBody 1 [''a''] [''1''] [] =
       JObj [(''contact'',
          JObj [(''primaryContatctId'', JNum pid),
                (''emails'', JArr (map JStr es)),
                (''phoneNumbers'', JArr (map JStr ps)),
                (''secondaryContactIds'', JArr (map JNum ids))])]"
  using C8_response_object_shape [OF oneDb_reached] .

section \<open>Merging chains\<close>

lemma sort_key_head:
  "sort_key f xs = y # ys \<Longrightarrow> find (\<lambda>q. f q \<le> f y) xs = Some y \<and> (\<forall>q \<in> set xs. f y \<le> f q)"
proof (induction xs arbitrary: y ys)
  case Nil
  then show ?case by simp
next
  case (Cons x xs)
  show ?case
  proof (cases "sort_key f xs")
    case Nil
    then have "length xs = 0" by (metis length_sort list.size(3))
    with Cons.prems show ?thesis by simp
  next
    case (Cons z zs)
    from Cons.IH [OF Cons] have ih: "find (\<lambda>q. f q \<le> f z) xs = Some z" "\<forall>q \<in> set xs. f z \<le> f q"
      by simp_all
    show ?thesis
    proof (cases "f x \<le> f z")
      case True
      with Cons Cons.prems have "y = x" by simp
      with True ih show ?thesis by auto
    next
      case False
      with Cons Cons.prems have "y = z" by simp
      with False ih show ?thesis by auto
    qed
  qed
qed

lemma length_demote [simp]: "length (rows (demote now oid d db)) = length (rows db)"
  by (simp add: demote_def)

lemma length_updateChildren [simp]: "length (rows (updateChildren now oid d db)) = length (rows db)"
  by (simp add: updateChildren_def)

lemma seq_demote [simp]: "seq (demote now oid d db) = seq db"
  by (simp add: demote_def)

lemma seq_updateChildren [simp]: "seq (updateChildren now oid d db) = seq db"
  by (simp add: updateChildren_def)

lemma updatePromise_length:
  "updatePromise fails now oid c (db, r) = (db', r') \<Longrightarrow> length (rows db') = length (rows db) \<and> seq db' = seq db"
  by (auto simp: updatePromise_def Let_def split: if_splits)

lemma demote_nth:
  "i < length (rows db) \<Longrightarrow>
   rows (demote now oid d db) ! i =
     (if id' (rows db ! i) = d
      then (rows db ! i)\<lparr>linkPrecedence := Secondary, linkedId := Some oid, updatedAt := now\<rparr>
      else rows db ! i)"
  by (simp add: demote_def)

lemma updateChildren_nth:
  "i < length (rows db) \<Longrightarrow>
   rows (updateChildren now oid d db) ! i =
     (if linkedId (rows db ! i) = Some d \<and> id' (rows db ! i) \<noteq> d
      then (rows db ! i)\<lparr>linkedId := Some oid, updatedAt := now\<rparr>
      else rows db ! i)"
  by (simp add: updateChildren_def)

lemma updatePromise_sameFacts:
  "updatePromise fails now oid c (db, r) = (db', r') \<Longrightarrow> i < length (rows db) \<Longrightarrow>
     sameFacts (rows db ! i) (rows db' ! i)"
  by (auto simp: updatePromise_def Let_def sameFacts_def demote_nth updateChildren_nth split: if_splits)

lemma updatePromise_relinked:
  "updatePromise fails now oid c (db, r) = (db', r') \<Longrightarrow> i < length (rows db) \<Longrightarrow>
     relinked now oid (rows db ! i) \<Longrightarrow> relinked now oid (rows db' ! i)"
  by (auto simp: updatePromise_def Let_def relinked_def demote_nth updateChildren_nth split: if_splits)

lemma updatePromise_same_or_relinked:
  "updatePromise fails now oid c (db, r) = (db', r') \<Longrightarrow> i < length (rows db) \<Longrightarrow>
     linkedId (rows db' ! i) = linkedId (rows db ! i) \<or> relinked now oid (rows db' ! i)"
  by (auto simp: updatePromise_def Let_def relinked_def demote_nth updateChildren_nth split: if_splits)

lemma updatePromise_relinks:
  "updatePromise fails now oid c (db, r) = (db', r') \<Longrightarrow> i < length (rows db) \<Longrightarrow>
     \<not> fails (Demote (id' c)) \<Longrightarrow> \<not> fails (Reparent (id' c)) \<Longrightarrow>
     linkedId (rows db ! i) = Some (id' c) \<Longrightarrow> id' (rows db ! i) \<noteq> id' c \<Longrightarrow>
     relinked now oid (rows db' ! i)"
  by (auto simp: updatePromise_def Let_def relinked_def demote_nth updateChildren_nth split: if_splits)

lemma updatePromise_rejected:
  "updatePromise fails now oid c (db, r) = (db', r') \<Longrightarrow>
     r' = (r \<or> fails (Demote (id' c)) \<or> fails (Reparent (id' c)))"
  by (auto simp: updatePromise_def Let_def split: if_splits)

lemma fold_updatePromise_rejected:
  "fold (updatePromise fails now oid) cs (db, r) = (db', r') \<Longrightarrow>
     r' = (r \<or> (\<exists>c \<in> set cs. fails (Demote (id' c)) \<or> fails (Reparent (id' c))))"
proof (induction cs arbitrary: db r)
  case Nil
  then show ?case by simp
next
  case (Cons c cs)
  obtain db1 r1 where s: "updatePromise fails now oid c (db, r) = (db1, r1)"
    by (cases "updatePromise fails now oid c (db, r)")
  with Cons.prems have "fold (updatePromise fails now oid) cs (db1, r1) = (db', r')" by simp
  from Cons.IH [OF this] updatePromise_rejected [OF s] show ?case by auto
qed

lemma fold_updatePromise_frame:
  "fold (updatePromise fails now oid) cs (db, r) = (db', r') \<Longrightarrow>
     length (rows db') = length (rows db) \<and> seq db' = seq db \<and>
     (\<forall>i < length (rows db). sameFacts (rows db ! i) (rows db' ! i))"
proof (induction cs arbitrary: db r)
  case Nil
  then show ?case by (simp add: sameFacts_def)
next
  case (Cons c cs)
  obtain db1 r1 where s: "updatePromise fails now oid c (db, r) = (db1, r1)"
    by (cases "updatePromise fails now oid c (db, r)")
  with Cons.prems have f: "fold (updatePromise fails now oid) cs (db1, r1) = (db', r')" by simp
  from Cons.IH [OF f] updatePromise_length [OF s] updatePromise_sameFacts [OF s]
  show ?case by (auto simp: sameFacts_def)
qed

lemma fold_updatePromise_relinked:
  "fold (updatePromise fails now oid) cs (db, r) = (db', r') \<Longrightarrow> i < length (rows db) \<Longrightarrow>
     relinked now oid (rows db ! i) \<Longrightarrow> relinked now oid (rows db' ! i)"
proof (induction cs arbitrary: db r)
  case Nil
  then show ?case by simp
next
  case (Cons c cs)
  obtain db1 r1 where s: "updatePromise fails now oid c (db, r) = (db1, r1)"
    by (cases "updatePromise fails now oid c (db, r)")
  with Cons.prems have f: "fold (updatePromise fails now oid) cs (db1, r1) = (db', r')" by simp
  have "i < length (rows db1)" using updatePromise_length [OF s] Cons.prems(2) by simp
  moreover have "relinked now oid (rows db1 ! i)"
    using updatePromise_relinked [OF s Cons.prems(2,3)] .
  ultimately show ?case using Cons.IH [OF f] by simp
qed

lemma fold_updatePromise_relinks:
  "fold (updatePromise fails now oid) cs (db, r) = (db', False) \<Longrightarrow> i < length (rows db) \<Longrightarrow>
     d \<in> set cs \<Longrightarrow> linkedId (rows db ! i) = Some (id' d) \<Longrightarrow> id' (rows db ! i) \<noteq> id' d \<Longrightarrow>
     relinked now oid (rows db' ! i)"
proof (induction cs arbitrary: db r)
  case Nil
  then show ?case by simp
next
  case (Cons c cs)
  obtain db1 r1 where s: "updatePromise fails now oid c (db, r) = (db1, r1)"
    by (cases "updatePromise fails now oid c (db, r)")
  with Cons.prems have f: "fold (updatePromise fails now oid) cs (db1, r1) = (db', False)" by simp
  have len: "i < length (rows db1)" using updatePromise_length [OF s] Cons.prems(2) by simp
  from fold_updatePromise_rejected [OF f] have r1: "\<not> r1" by simp
  with updatePromise_rejected [OF s]
  have ok: "\<not> fails (Demote (id' c))" "\<not> fails (Reparent (id' c))" by simp_all
  show ?case
  proof (cases "relinked now oid (rows db1 ! i)")
    case True
    then show ?thesis using fold_updatePromise_relinked [OF f len] by simp
  next
    case False
    with updatePromise_same_or_relinked [OF s Cons.prems(2)]
    have same: "linkedId (rows db1 ! i) = linkedId (rows db ! i)" by simp
    have ids: "id' (rows db1 ! i) = id' (rows db ! i)"
      using updatePromise_sameFacts [OF s Cons.prems(2)] by (simp add: sameFacts_def)
    have "id' c \<noteq> id' d"
      using False updatePromise_relinks [OF s Cons.prems(2) ok] Cons.prems(4,5) by auto
    then have "d \<in> set cs" using Cons.prems(3) by auto
    from Cons.IH [OF f len this] same ids Cons.prems(4,5) show ?thesis by simp
  qed
qed

text \<open>
  C10. When every statement of the merge succeeded, each row whose \<open>linkedId\<close> was the
  id of a demoted contact (and which is not that contact) has the surviving primary's
  id as its \<open>linkedId\<close> and the time of the merge as its \<open>updatedAt\<close>. Nothing is asked
  of the row's \<open>deletedAt\<close>, which the statement neither reads nor changes: a
  soft-deleted secondary contact is re-linked like any other.
\<close>

theorem C10_relinking_includes_deleted_contacts:
  assumes "updatePromises fails now oldestId others db = (db', False)"
    and "i < length (rows db)"
    and "d \<in> set others"
    and "linkedId (rows db ! i) = Some (id' d)"
    and "id' (rows db ! i) \<noteq> id' d"
  shows "linkedId (rows db' ! i) = Some oldestId \<and> updatedAt (rows db' ! i) = now \<and>
         id' (rows db' ! i) = id' (rows db ! i) \<and> deletedAt (rows db' ! i) = deletedAt (rows db ! i)"
proof -
  have f: "fold (updatePromise fails now oldestId) others (db, False) = (db', False)"
    using assms(1) by (simp add: updatePromises_def)
  from fold_updatePromise_relinks [OF f assms(2-5)] fold_updatePromise_frame [OF f] assms(2)
  show ?thesis by (auto simp: relinked_def sameFacts_def)
qed

theorem C10_witness:
  "identify storeOk inOrder 9 deletedDb (Some ''a'') (Some ''2'') =
     Some (deletedDbMerged, Response 200 (contactBody 1 [''a'', ''b''] [''1'', ''2''] [2])) \<and>
   deletedAt (rows deletedDb ! 2) = Some 6 \<and>
   findContactsByEmailOrPhone deletedDb (Some ''b'') (Some ''4'') = [secondPrimary] \<and>
   updatePromises storeOk 9 1 [secondPrimary] deletedDb = (deletedDbMerged, False) \<and>
   linkedId (rows deletedDbMerged ! 2) = Some 1 \<and>
   updatedAt (rows deletedDbMerged ! 2) = 9 \<and>
   id' (rows deletedDbMerged ! 2) = 3 \<and>
   deletedAt (rows deletedDbMerged ! 2) = Some 6"
proof -
  have u: "updatePromises storeOk 9 1 [secondPrimary] deletedDb = (deletedDbMerged, False)"
    by (simp add: identify_unfold deletedDb_def deletedDbMerged_def example_rows)
  have "linkedId (rows deletedDbMerged ! 2) = Some 1 \<and>
        updatedAt (rows deletedDbMerged ! 2) = 9 \<and>
        id' (rows deletedDbMerged ! 2) = id' (rows deletedDb ! 2) \<and>
        deletedAt (rows deletedDbMerged ! 2) = deletedAt (rows deletedDb ! 2)"
    by (rule C10_relinking_includes_deleted_contacts [OF u, of 2 secondPrimary])
       (simp_all add: deletedDb_def example_rows)
  with u deletedDb_merge show ?thesis
    by (simp add: deletedDb_def findContactsByEmailOrPhone_def truthy_def example_rows)
qed

text \<open>
  C4 (as the code has it). The handler opens no transaction and its \<open>catch\<close> only
  answers 500. In the store \<open>tieDb\<close> the request \<open>(b, 4)\<close> demotes contact 1; when the
  store then fails the statement that re-links the secondaries of contact 1, the
  demotion stays: the stored state differs from the state before the request, and
  contact 3 points at contact 1, which is now secondary.
\<close>

theorem C4_no_rollback_counterexample:
  "identify (failsOnly (Reparent 1)) inOrder 9 tieDb (Some ''b'') (Some ''4'') =
     Some (tieDbInterrupted, Response 500 (errorBody ''Failed to merge contacts'')) \<and>
   tieDbInterrupted \<noteq> tieDb \<and>
   chainsWellFormed tieDb \<and>
   \<not> chainsWellFormed tieDbInterrupted"
  by (simp add: identify_unfold chainsWellFormed_def tieDb_def tieDbInterrupted_def example_rows)

text \<open>
  C4, amended. If the store fails a demotion or a re-linking during a multi-chain merge,
  the request is answered with status 500 and nothing is rolled back: the stored state
  is the one that the statements of the merge which did run have produced. No contact
  is inserted, and every row keeps its id, email, phoneNumber, createdAt and
  deletedAt. (The state may differ from the one before the request and may violate the
  invariants of the chains.)
\<close>

theorem C4_failed_merge_keeps_applied_updates:
  assumes "primaryContactsOf contactChains = oldestPrimary # others"
    and "c \<in> set others"
    and "fails (Demote (id' c)) \<or> fails (Reparent (id' c))"
    and "db' = fst (updatePromises fails now (id' oldestPrimary) others db)"
  shows "mergeChains fails now db em ph contactChains =
           Some (db', Response 500 (errorBody ''Failed to merge contacts'')) \<and>
         length (rows db') = length (rows db) \<and> seq db' = seq db \<and>
         (\<forall>i < length (rows db). sameFacts (rows db ! i) (rows db' ! i))"
proof -
  obtain r where u: "updatePromises fails now (id' oldestPrimary) others db = (db', r)"
    using assms(4) by (cases "updatePromises fails now (id' oldestPrimary) others db") simp
  then have f: "fold (updatePromise fails now (id' oldestPrimary)) others (db, False) = (db', r)"
    by (simp add: updatePromises_def)
  from fold_updatePromise_rejected [OF f] assms(2,3) have r by auto
  with u assms(1) have "mergeChains fails now db em ph contactChains =
           Some (db', Response 500 (errorBody ''Failed to merge contacts''))"
    by (simp add: mergeChains_def Let_def)
  with fold_updatePromise_frame [OF f] show ?thesis by simp
qed

theorem C4_witness:
  "mergeChains (failsOnly (Reparent 1)) 9 tieDb (Some ''b'') (Some ''4'') tieChains =
     Some (tieDbInterrupted, Response 500 (errorBody ''Failed to merge contacts'')) \<and>
   length (rows tieDbInterrupted) = length (rows tieDb) \<and>
   seq tieDbInterrupted = seq tieDb \<and>
   sameFacts (rows tieDb ! 0) (rows tieDbInterrupted ! 0)"
proof -
  have p: "primaryContactsOf tieChains = [secondPrimary, firstPrimary]"
    by (simp add: tieChains_def identify_unfold example_rows)
  have f: "failsOnly (Reparent 1) (Demote (id' firstPrimary)) \<or>
           failsOnly (Reparent 1) (Reparent (id' firstPrimary))"
    by (simp add: failsOnly_def example_rows)
  have u: "tieDbInterrupted =
           fst (updatePromises (failsOnly (Reparent 1)) 9 (id' secondPrimary) [firstPrimary] tieDb)"
    by (simp add: identify_unfold tieDb_def tieDbInterrupted_def example_rows)
  from C4_failed_merge_keeps_applied_updates
         [where em = "Some ''b''" and ph = "Some ''4''", OF p _ f u]
  show ?thesis by (simp add: tieDb_def All_less_Suc)
qed

section \<open>Chains of a well-formed table\<close>

lemma contact_chain_leaves:
  "\<forall>r \<in> set q. children rs r = [] \<Longrightarrow> contact_chain rs q acc = Some (rev acc @ q)"
  by (induction q arbitrary: acc) (simp_all add: contact_chain_Nil contact_chain_Cons)

lemma contact_chain_two_levels:
  "\<forall>r \<in> set q. \<forall>c \<in> set (children rs r). children rs c = [] \<Longrightarrow>
   \<forall>k \<in> set ks. children rs k = [] \<Longrightarrow>
   contact_chain rs (q @ ks) acc = Some (rev acc @ q @ ks @ concat (map (children rs) q))"
proof (induction q arbitrary: ks acc)
  case Nil
  from contact_chain_leaves [OF Nil(2)] show ?case by simp
next
  case (Cons r q)
  have q: "\<forall>r \<in> set q. \<forall>c \<in> set (children rs r). children rs c = []"
    using Cons.prems(1) by (meson list.set_intros(2))
  have ks: "\<forall>k \<in> set (ks @ children rs r). children rs k = []"
    using Cons.prems by (metis Un_iff list.set_intros(1) set_append)
  have "contact_chain rs ((r # q) @ ks) acc =
        contact_chain rs (q @ (ks @ children rs r)) (r # acc)"
    using contact_chain_Cons [of rs r "q @ ks" acc] by simp
  also have "\<dots> = Some (rev (r # acc) @ q @ (ks @ children rs r) @ concat (map (children rs) q))"
    by (rule Cons.IH [OF q ks])
  also have "\<dots> = Some (rev acc @ (r # q) @ ks @ concat (map (children rs) (r # q)))"
    by simp
  finally show ?case .
qed

lemma wf_distinct: "chainsWellFormed db \<Longrightarrow> distinct (map id' (rows db))"
  by (simp add: chainsWellFormed_def)

lemma wf_same_id:
  "chainsWellFormed db \<Longrightarrow> c \<in> set (rows db) \<Longrightarrow> d \<in> set (rows db) \<Longrightarrow> id' c = id' d \<Longrightarrow> c = d"
  by (auto simp: chainsWellFormed_def distinct_map dest: inj_onD)

lemma wf_primary:
  "chainsWellFormed db \<Longrightarrow> c \<in> set (rows db) \<Longrightarrow> linkPrecedence c = Primary \<Longrightarrow>
     linkedId c = None \<and> deletedAt c = None"
  by (simp add: chainsWellFormed_def)

lemma wf_secondary:
  "chainsWellFormed db \<Longrightarrow> c \<in> set (rows db) \<Longrightarrow> linkPrecedence c = Secondary \<Longrightarrow>
     \<exists>p \<in> set (rows db). linkedId c = Some (id' p) \<and> linkPrecedence p = Primary"
  by (simp add: chainsWellFormed_def)

lemma wf_linked_is_secondary:
  "chainsWellFormed db \<Longrightarrow> c \<in> set (rows db) \<Longrightarrow> linkedId c = Some j \<Longrightarrow>
     linkPrecedence c = Secondary"
  using wf_primary [of db c] by (cases "linkPrecedence c") auto

lemma wf_flat:
  assumes "chainsWellFormed db" "c \<in> set (rows db)" "p \<in> set (rows db)"
    and "linkedId c = Some (id' p)"
  shows "linkPrecedence p = Primary"
proof -
  have "linkPrecedence c = Secondary" using assms wf_linked_is_secondary by blast
  then obtain q where q: "q \<in> set (rows db)" "linkedId c = Some (id' q)" "linkPrecedence q = Primary"
    using wf_secondary [OF assms(1,2)] by blast
  with assms have "q = p" by (intro wf_same_id [OF assms(1)]) auto
  with q show ?thesis by simp
qed

lemma children_subset: "set (children rs r) \<subseteq> set rs"
  by (auto simp: children_def)

lemma chainRoots_subset: "set (chainRoots db key) \<subseteq> set (rows db)"
  by (auto simp: chainRoots_def)

lemma wf_secondary_childless:
  assumes "chainsWellFormed db" "s \<in> set (rows db)" "linkPrecedence s = Secondary"
  shows "children (rows db) s = []"
proof -
  have "\<And>c. c \<in> set (rows db) \<Longrightarrow> linkedId c \<noteq> Some (id' s)"
    using wf_flat [OF assms(1) _ assms(2)] assms(3) by fastforce
  then show ?thesis by (auto simp: children_def filter_empty_conv)
qed

lemma wf_children_childless:
  assumes "chainsWellFormed db" "c \<in> set (children (rows db) r)"
  shows "children (rows db) c = []"
proof -
  from assms(2) have "c \<in> set (rows db)" "linkedId c = Some (id' r)"
    by (auto simp: children_def)
  then show ?thesis
    using wf_linked_is_secondary [OF assms(1)] wf_secondary_childless [OF assms(1)] by blast
qed

lemma wf_getAllContactsInChain:
  assumes "chainsWellFormed db"
  shows "getAllContactsInChain db key = Some (chainOf db key)"
proof -
  have "contact_chain (rows db) (chainRoots db key @ []) [] =
        Some (rev [] @ chainRoots db key @ [] @ concat (map (children (rows db)) (chainRoots db key)))"
    using wf_children_childless [OF assms] by (intro contact_chain_two_levels) auto
  then show ?thesis by (simp add: getAllContactsInChain_def chainOf_def)
qed

lemma chainOf_set:
  "set (chainOf db key) =
     set (chainRoots db key) \<union> (\<Union>r \<in> set (chainRoots db key). set (children (rows db) r))"
  by (simp add: chainOf_def)

lemma chainOf_subset: "set (chainOf db key) \<subseteq> set (rows db)"
  using chainRoots_subset [of db key] children_subset [of "rows db"]
  by (auto simp: chainOf_set)

lemma chainOf_live: "c \<in> set (chainOf db key) \<Longrightarrow> deletedAt c = None"
  by (auto simp: chainOf_set chainRoots_def children_def)

lemma wf_chainRoots:
  "chainsWellFormed db \<Longrightarrow>
   chainRoots db key =
     filter (\<lambda>c. Some (id' c) = key \<and> linkPrecedence c = Primary) (rows db)"
  unfolding chainRoots_def
  by (rule filter_cong) (auto dest: wf_primary split: option.splits)

lemma distinct_in_singleton: "distinct xs \<Longrightarrow> set xs \<subseteq> {k} \<Longrightarrow> xs = [] \<or> xs = [k]"
proof (cases xs)
  case Nil
  then show ?thesis by simp
next
  case (Cons x ys)
  assume "distinct xs" "set xs \<subseteq> {k}"
  with Cons have "x = k" "set ys \<subseteq> {k}" "k \<notin> set ys" by auto
  then have "ys = []" by (cases ys) auto
  with Cons \<open>x = k\<close> show ?thesis by simp
qed

lemma wf_chainRoots_short:
  assumes "chainsWellFormed db"
  shows "chainRoots db key = [] \<or> (\<exists>p. chainRoots db key = [p])"
proof (cases key)
  case None
  then show ?thesis by (simp add: chainRoots_def)
next
  case (Some k)
  have "distinct (map id' (chainRoots db key))"
    using wf_distinct [OF assms] by (simp add: chainRoots_def distinct_map_filter)
  moreover have "set (map id' (chainRoots db key)) \<subseteq> {k}"
    using Some by (auto simp: wf_chainRoots [OF assms])
  ultimately have "map id' (chainRoots db key) = [] \<or> map id' (chainRoots db key) = [k]"
    by (rule distinct_in_singleton)
  then show ?thesis by (cases "chainRoots db key") auto
qed

lemma wf_chainOf_primaries:
  assumes "chainsWellFormed db"
  shows "filter (\<lambda>c. linkPrecedence c = Primary) (chainOf db key) = chainRoots db key"
proof -
  have k: "filter (\<lambda>c. linkPrecedence c = Primary) (concat (map (children (rows db)) (chainRoots db key))) = []"
    using wf_linked_is_secondary [OF assms]
    by (auto simp: filter_empty_conv children_def)
  have r: "filter (\<lambda>c. linkPrecedence c = Primary) (chainRoots db key) = chainRoots db key"
    by (simp add: chainRoots_def)
  have "sort_key chainOrder (chainRoots db key) = chainRoots db key"
    using wf_chainRoots_short [OF assms, of key] by auto
  with k r show ?thesis by (simp add: chainOf_def filter_sort)
qed

section \<open>The response of a stored chain\<close>

lemma contact_chain_subset:
  assumes "contact_chain rs q acc = Some r"
  shows "set r \<subseteq> set q \<union> set acc \<union> set rs"
proof (rule contact_chain.raw_induct
         [where P = "\<lambda>rs q acc r. set r \<subseteq> set q \<union> set acc \<union> set rs", OF _ assms])
  fix f :: "contact list \<Rightarrow> contact list \<Rightarrow> contact list \<Rightarrow> contact list option"
    and rs queue acc r
  assume ih: "\<And>rs q acc y. f rs q acc = Some y \<Longrightarrow> set y \<subseteq> set q \<union> set acc \<union> set rs"
    and st: "(case queue of [] \<Rightarrow> Some (rev acc)
              | x # q \<Rightarrow> f rs (q @ children rs x) (x # acc)) = Some r"
  show "set r \<subseteq> set queue \<union> set acc \<union> set rs"
  proof (cases queue)
    case Nil
    with st show ?thesis by auto
  next
    case (Cons x q)
    with st have "f rs (q @ children rs x) (x # acc) = Some r" by simp
    from ih [OF this] Cons children_subset [of rs x] show ?thesis by auto
  qed
qed

lemma getAllContactsInChain_subset:
  "getAllContactsInChain db key = Some contacts \<Longrightarrow> set contacts \<subseteq> set (rows db)"
proof -
  assume "getAllContactsInChain db key = Some contacts"
  then obtain r where r: "contact_chain (rows db) (chainRoots db key) [] = Some r"
    "contacts = sort_key chainOrder r"
    by (auto simp: getAllContactsInChain_def)
  from contact_chain_subset [OF r(1)] chainRoots_subset [of db key] r(2) show ?thesis by auto
qed

lemma orNull_not_empty: "orNull v \<noteq> Some []"
  by (simp add: orNull_def truthy_def split: option.splits)

lemma noEmpty_insert:
  "noEmptyStrings db \<Longrightarrow> noEmptyStrings (insertContact now (orNull ph) (orNull em) l p db)"
  by (auto simp: noEmptyStrings_def insertContact_def orNull_not_empty)

lemma noEmpty_frame:
  assumes "noEmptyStrings db" "length (rows db1) = length (rows db)"
    and "\<forall>i < length (rows db). sameFacts (rows db ! i) (rows db1 ! i)"
  shows "noEmptyStrings db1"
  unfolding noEmptyStrings_def
proof
  fix c assume "c \<in> set (rows db1)"
  then obtain i where i: "i < length (rows db1)" "c = rows db1 ! i"
    by (auto simp: in_set_conv_nth)
  with assms(2,3) have "sameFacts (rows db ! i) c" "rows db ! i \<in> set (rows db)" by simp_all
  with assms(1) show "email c \<noteq> Some [] \<and> phoneNumber c \<noteq> Some []"
    by (auto simp: noEmptyStrings_def sameFacts_def)
qed

lemma noEmpty_updatePromises:
  assumes "noEmptyStrings db" "updatePromises fails now oid cs db = (db1, r)"
  shows "noEmptyStrings db1"
proof -
  from assms(2) have "fold (updatePromise fails now oid) cs (db, False) = (db1, r)"
    by (simp add: updatePromises_def)
  from fold_updatePromise_frame [OF this] noEmpty_frame [OF assms(1)] show ?thesis by blast
qed

lemma singleChain_noEmpty:
  "noEmptyStrings db \<Longrightarrow> singleChain fails now db em ph contacts = Some (db', out) \<Longrightarrow>
     noEmptyStrings db'"
  by (auto simp: singleChain_def Let_def noEmpty_insert split: if_splits option.splits)

lemma mergeChains_noEmpty:
  assumes "noEmptyStrings db" "mergeChains fails now db em ph chs = Some (db', out)"
  shows "noEmptyStrings db'"
proof (cases "primaryContactsOf chs")
  case Nil
  with assms show ?thesis by (simp add: mergeChains_def)
next
  case (Cons oldest others)
  obtain db1 r where u: "updatePromises fails now (id' oldest) others db = (db1, r)"
    by (cases "updatePromises fails now (id' oldest) others db")
  from noEmpty_updatePromises [OF assms(1) u] have n1: "noEmptyStrings db1" .
  from noEmpty_insert [OF n1] assms(2) Cons u n1 show ?thesis
    by (auto simp: mergeChains_def Let_def split: if_splits option.splits)
qed

lemma identify_noEmpty:
  assumes "noEmptyStrings db" "identify fails delay now db em ph = Some (db', out)"
  shows "noEmptyStrings db'"
proof -
  from assms(2)
  consider (same) "db' = db"
    | (new) "db' = insertContact now (orNull ph) (orNull em) None Primary db"
    | (chains) chs where "processContactChains fails now db em ph chs = Some (db', out)"
    by (auto simp: identify_def Let_def split: if_splits option.splits)
  then show ?thesis
  proof cases
    case same
    with assms(1) show ?thesis by simp
  next
    case new
    with noEmpty_insert [OF assms(1)] show ?thesis by simp
  next
    case chains
    then show ?thesis
      using singleChain_noEmpty [OF assms(1)] mergeChains_noEmpty [OF assms(1)]
      by (auto simp: processContactChains_def split: list.splits prod.splits)
  qed
qed

lemma runRequests_noEmpty:
  "noEmptyStrings db \<Longrightarrow> runRequests reqs db = Some (db', outs) \<Longrightarrow> noEmptyStrings db'"
proof (induction reqs arbitrary: db outs)
  case Nil
  then show ?case by simp
next
  case (Cons req reqs)
  obtain fails delay now em ph where req: "req = (fails, delay, now, em, ph)" by (cases req)
  from Cons.prems(2) req obtain db1 out outs1 where
    i: "identify fails delay now db em ph = Some (db1, out)" and
    r: "runRequests reqs db1 = Some (db', outs1)"
    by (auto split: option.splits)
  from Cons.IH [OF identify_noEmpty [OF Cons.prems(1) i] r] show ?case .
qed

lemma noEmpty_emptyDb: "noEmptyStrings emptyDb"
  by (simp add: noEmptyStrings_def emptyDb_def)

text \<open>
  C7. The store is any state reached from the empty store by a sequence of requests,
  whatever their outcomes, the clock and the behaviour of the store were; the chain is
  any chain that the chain query returns in it, and it has a primary contact. The
  lists \<open>emails\<close> and \<open>phoneNumbers\<close> of the response built from the chain have no
  duplicates, and whenever the email (respectively the phoneNumber) of the primary
  contact is non-null, it is the first element of its list. (Every insert binds
  \<open>email || null\<close> and \<open>phoneNumber || null\<close> and no update writes these columns, so no
  stored value is the empty string, which the filter would drop.)
\<close>

theorem C7_response_lists_distinct_primary_first:
  assumes run: "runRequests reqs emptyDb = Some (db, outs)"
    and chain: "getAllContactsInChain db key = Some contacts"
    and prim: "find (\<lambda>c. linkPrecedence c = Primary) contacts = Some primary"
    and "secondaries = filter (\<lambda>c. linkPrecedence c = Secondary) contacts"
    and "emails = responseEmails primary secondaries"
    and "phoneNumbers = responsePhoneNumbers primary secondaries"
  shows "returnResponse contacts =
           Response 200 (contactBody (id' primary) emails phoneNumbers (map id' secondaries)) \<and>
         distinct emails \<and> distinct phoneNumbers \<and>
         (\<forall>e. email primary = Some e \<longrightarrow> (\<exists>rest. emails = e # rest)) \<and>
         (\<forall>n. phoneNumber primary = Some n \<longrightarrow> (\<exists>rest. phoneNumbers = n # rest))"
proof -
  have "primary \<in> set contacts" using prim by (auto simp: find_Some_iff)
  with getAllContactsInChain_subset [OF chain] have "primary \<in> set (rows db)" by auto
  with runRequests_noEmpty [OF noEmpty_emptyDb run]
  have ne: "email primary \<noteq> Some []" "phoneNumber primary \<noteq> Some []"
    by (auto simp: noEmptyStrings_def)
  have "returnResponse contacts =
          Response 200 (contactBody (id' primary) emails phoneNumbers (map id' secondaries))"
    using assms by (simp add: returnResponse_def Let_def)
  moreover have "distinct emails" "distinct phoneNumbers"
    using assms(5,6) by (simp_all add: responseEmails_distinct responsePhoneNumbers_distinct)
  moreover have "\<forall>e. email primary = Some e \<longrightarrow> (\<exists>rest. emails = e # rest)"
    using assms(5) responseEmails_first ne(1) by blast
  moreover have "\<forall>n. phoneNumber primary = Some n \<longrightarrow> (\<exists>rest. phoneNumbers = n # rest)"
    using assms(6) responsePhoneNumbers_first ne(2) by blast
  ultimately show ?thesis by blast
qed

theorem C7_witness:
  "returnResponse [phoneSecondary, firstPrimary] =
     Response 200 (contactBody 1 (responseEmails firstPrimary [phoneSecondary])
       (responsePhoneNumbers firstPrimary [phoneSecondary]) [3]) \<and>
   distinct (responseEmails firstPrimary [phoneSecondary]) \<and>
   distinct (responsePhoneNumbers firstPrimary [phoneSecondary]) \<and>
   (\<exists>rest. responseEmails firstPrimary [phoneSecondary] = ''a'' # rest) \<and>
   (\<exists>rest. responsePhoneNumbers firstPrimary [phoneSecondary] = ''1'' # rest)"
proof -
  have c: "getAllContactsInChain tieDb (Some 1) = Some [phoneSecondary, firstPrimary]"
    by (simp add: identify_unfold tieDb_def example_rows)
  have f: "find (\<lambda>c. linkPrecedence c = Primary) [phoneSecondary, firstPrimary] =
             Some firstPrimary"
    by (simp add: example_rows)
  have s: "[phoneSecondary] =
             filter (\<lambda>c. linkPrecedence c = Secondary) [phoneSecondary, firstPrimary]"
    by (simp add: example_rows)
  from C7_response_lists_distinct_primary_first [OF tieDb_reached c f s refl refl]
  show ?thesis by (simp add: example_rows)
qed

section \<open>The invariants are kept\<close>

lemma fold_max_ge: "(a::nat) \<le> fold max xs a \<and> (\<forall>x \<in> set xs. x \<le> fold max xs a)"
proof (induction xs arbitrary: a)
  case Nil
  then show ?case by simp
next
  case (Cons y ys)
  from Cons.IH [of "max y a"] show ?case by auto
qed

lemma nextId_fresh: "c \<in> set (rows db) \<Longrightarrow> id' c < nextId db"
  using fold_max_ge [of "seq db" "map id' (rows db)"] by (auto simp: nextId_def)

lemma rows_insertContact:
  "rows (insertContact now ph em linked prec db) =
     rows db @ [\<lparr>id' = nextId db, phoneNumber = ph, email = em, linkedId = linked,
                 linkPrecedence = prec, createdAt = now, updatedAt = now, deletedAt = None\<rparr>]"
  by (simp add: insertContact_def)

lemma wf_insert_primary:
  assumes "chainsWellFormed db"
  shows "chainsWellFormed (insertContact now ph em None Primary db)"
proof -
  have "nextId db \<notin> id' ` set (rows db)" using nextId_fresh [of _ db] by fastforce
  with assms show ?thesis
    unfolding chainsWellFormed_def rows_insertContact by auto
qed

lemma wf_insert_secondary:
  assumes "chainsWellFormed db" "p \<in> set (rows db)" "linkPrecedence p = Primary"
  shows "chainsWellFormed (insertContact now ph em (Some (id' p)) Secondary db)"
proof -
  have "nextId db \<notin> id' ` set (rows db)" using nextId_fresh [of _ db] by fastforce
  with assms show ?thesis
    unfolding chainsWellFormed_def rows_insertContact by auto
qed

lemma rows_merge_step:
  "rows (updateChildren now oid d (demote now oid d db)) =
     map (\<lambda>c. if id' c = d
              then c\<lparr>linkPrecedence := Secondary, linkedId := Some oid, updatedAt := now\<rparr>
              else if linkedId c = Some d then c\<lparr>linkedId := Some oid, updatedAt := now\<rparr>
              else c) (rows db)"
  by (auto simp: demote_def updateChildren_def)

lemma wf_merge_step:
  assumes wf: "chainsWellFormed db" and o: "isPrimaryId db oid" and ne: "d \<noteq> oid"
  shows "chainsWellFormed (updateChildren now oid d (demote now oid d db)) \<and>
         isPrimaryId (updateChildren now oid d (demote now oid d db)) oid"
proof -
  let ?g = "\<lambda>c. if id' c = d
              then c\<lparr>linkPrecedence := Secondary, linkedId := Some oid, updatedAt := now\<rparr>
              else if linkedId c = Some d then c\<lparr>linkedId := Some oid, updatedAt := now\<rparr>
              else c"
  let ?db = "updateChildren now oid d (demote now oid d db)"
  have rows: "rows ?db = map ?g (rows db)" by (rule rows_merge_step)
  have ids: "map id' (rows ?db) = map id' (rows db)" by (simp add: rows)
  have keep: "?g p = p" if "p \<in> set (rows db)" "linkPrecedence p = Primary" "id' p \<noteq> d" for p
    using wf_primary [OF wf that(1,2)] that(3) by simp
  from o obtain po where po: "po \<in> set (rows db)" "id' po = oid" "linkPrecedence po = Primary"
    by (auto simp: isPrimaryId_def)
  have inrows: "p \<in> set (rows ?db)"
    if "p \<in> set (rows db)" "linkPrecedence p = Primary" "id' p \<noteq> d" for p
  proof -
    have "p = ?g p" using keep [OF that] by simp
    then have "p \<in> ?g ` set (rows db)" using that(1) by (rule image_eqI)
    then show ?thesis by (simp add: rows)
  qed
  have po': "po \<in> set (rows ?db)"
    using inrows [OF po(1,3)] po(2) ne by simp
  have "(linkPrecedence c' = Primary \<longrightarrow> linkedId c' = None \<and> deletedAt c' = None) \<and>
        (linkPrecedence c' = Secondary \<longrightarrow>
           (\<exists>p \<in> set (rows ?db). linkedId c' = Some (id' p) \<and> linkPrecedence p = Primary))"
    if c': "c' \<in> set (rows ?db)" for c'
  proof -
    from c' obtain c where c: "c \<in> set (rows db)" "c' = ?g c" by (auto simp: rows)
    show ?thesis
    proof (cases "id' c = d \<or> linkedId c = Some d")
      case True
      then have "linkPrecedence c' = Secondary \<and> linkedId c' = Some (id' po)"
        using c(2) po(2) wf_linked_is_secondary [OF wf c(1)] by auto
      with po' po(3) show ?thesis by auto
    next
      case False
      then have same: "c' = c" using c(2) by simp
      show ?thesis
      proof (cases "linkPrecedence c")
        case Primary
        with wf_primary [OF wf c(1)] same show ?thesis by simp
      next
        case Secondary
        from wf_secondary [OF wf c(1) Secondary] obtain p where
          p: "p \<in> set (rows db)" "linkedId c = Some (id' p)" "linkPrecedence p = Primary" by blast
        with False have "id' p \<noteq> d" by auto
        from inrows [OF p(1,3) this] have "p \<in> set (rows ?db)" .
        with p same Secondary show ?thesis by auto
      qed
    qed
  qed
  moreover have "distinct (map id' (rows ?db))" using ids wf_distinct [OF wf] by simp
  ultimately have "chainsWellFormed ?db" unfolding chainsWellFormed_def by blast
  moreover have "isPrimaryId ?db oid" using po' po by (auto simp: isPrimaryId_def)
  ultimately show ?thesis by simp
qed

lemma wf_fold_updatePromise:
  "chainsWellFormed db \<Longrightarrow> isPrimaryId db oid \<Longrightarrow> oid \<notin> id' ` set cs \<Longrightarrow>
   fold (updatePromise fails now oid) cs (db, r) = (db', False) \<Longrightarrow>
   chainsWellFormed db' \<and> isPrimaryId db' oid"
proof (induction cs arbitrary: db r)
  case Nil
  then show ?case by simp
next
  case (Cons c cs)
  obtain db1 r1 where s: "updatePromise fails now oid c (db, r) = (db1, r1)"
    by (cases "updatePromise fails now oid c (db, r)")
  with Cons.prems have f: "fold (updatePromise fails now oid) cs (db1, r1) = (db', False)" by simp
  from fold_updatePromise_rejected [OF f] have "\<not> r1" by simp
  with updatePromise_rejected [OF s]
  have ok: "\<not> fails (Demote (id' c))" "\<not> fails (Reparent (id' c))" by simp_all
  with s have db1: "db1 = updateChildren now oid (id' c) (demote now oid (id' c) db)"
    by (simp add: updatePromise_def Let_def)
  have "id' c \<noteq> oid" using Cons.prems(3) by auto
  from wf_merge_step [OF Cons.prems(1,2) this, of now] db1
  have "chainsWellFormed db1" "isPrimaryId db1 oid" by simp_all
  moreover have "oid \<notin> id' ` set cs" using Cons.prems(3) by auto
  ultimately show ?case using Cons.IH [OF _ _ _ f] by blast
qed

lemma wf_collectChains:
  "chainsWellFormed db \<Longrightarrow> collectChains db ms acc = Some (chainsOf db ms acc)"
  by (induction ms arbitrary: acc) (simp_all add: chainsOf_def wf_getAllContactsInChain)

lemma chainsOf_keys:
  "fst ` set (chainsOf db ms acc) = fst ` set acc \<union> chainIdOf ` set ms"
  by (induction ms arbitrary: acc) (auto simp: chainsOf_def dom_update)

lemma chainsOf_distinct:
  "distinct (map fst acc) \<Longrightarrow> distinct (map fst (chainsOf db ms acc))"
  by (induction ms arbitrary: acc) (simp_all add: chainsOf_def distinct_update)

lemma update_entries:
  "(k, v) \<in> set (AList.update k' v' al) \<Longrightarrow> (k, v) \<in> set al \<or> (k = k' \<and> v = v')"
  by (induction al) (auto split: if_splits)

lemma chainsOf_values:
  "\<forall>(k, v) \<in> set acc. v = chainOf db k \<Longrightarrow> (k, v) \<in> set (chainsOf db ms acc) \<Longrightarrow>
     v = chainOf db k"
proof (induction ms arbitrary: acc)
  case Nil
  then show ?case by (auto simp: chainsOf_def)
next
  case (Cons c cs)
  have "\<forall>(k, v) \<in> set (AList.update (chainIdOf c) (chainOf db (chainIdOf c)) acc). v = chainOf db k"
    using Cons.prems(1) by (auto dest: update_entries)
  from Cons.IH [OF this] Cons.prems(2) show ?case by (simp add: chainsOf_def)
qed

lemma chainsOf_map:
  assumes "chs = chainsOf db ms []"
  shows "map snd chs = map (chainOf db) (map fst chs)"
proof -
  have "\<And>e. e \<in> set chs \<Longrightarrow> snd e = chainOf db (fst e)"
    using chainsOf_values [of "[]" db _ _ ms] assms by (metis empty_iff empty_set prod.collapse)
  then show ?thesis by simp
qed

lemma wf_roots_key:
  "chainsWellFormed db \<Longrightarrow> c \<in> set (chainRoots db key) \<Longrightarrow>
     key = Some (id' c) \<and> linkPrecedence c = Primary \<and> c \<in> set (rows db)"
  by (auto simp: wf_chainRoots)

lemma wf_roots_distinct:
  assumes "chainsWellFormed db"
  shows "distinct keys \<Longrightarrow> distinct (map id' (concat (map (chainRoots db) keys)))"
proof (induction keys)
  case Nil
  then show ?case by simp
next
  case (Cons k ks)
  have one: "distinct (map id' (chainRoots db k))"
    using wf_chainRoots_short [OF assms, of k] by auto
  have "id' c \<noteq> id' d"
    if "c \<in> set (chainRoots db k)" "d \<in> set (concat (map (chainRoots db) ks))" for c d
  proof -
    from that(2) obtain k' where k': "k' \<in> set ks" "d \<in> set (chainRoots db k')" by auto
    have "k = Some (id' c)" using wf_roots_key [OF assms that(1)] by simp
    moreover have "k' = Some (id' d)" using wf_roots_key [OF assms k'(2)] by simp
    moreover have "k \<noteq> k'" using k'(1) Cons.prems by auto
    ultimately show ?thesis by auto
  qed
  then have "set (map id' (chainRoots db k)) \<inter> set (map id' (concat (map (chainRoots db) ks))) = {}"
    by fastforce
  with one Cons show ?case by simp
qed

lemma filter_concat: "filter P (concat xss) = concat (map (filter P) xss)"
  by (induction xss) auto

lemma wf_primaries_of_chains:
  assumes "chainsWellFormed db" "chs = chainsOf db ms []"
  shows "filter (\<lambda>c. linkPrecedence c = Primary) (allContactsOf chs) =
           concat (map (chainRoots db) (map fst chs))"
proof -
  have "allContactsOf chs = concat (map (chainOf db) (map fst chs))"
    by (simp only: allContactsOf_def chainsOf_map [OF assms(2)])
  then have "filter (\<lambda>c. linkPrecedence c = Primary) (allContactsOf chs) =
        concat (map (filter (\<lambda>c. linkPrecedence c = Primary)) (map (chainOf db) (map fst chs)))"
    by (simp only: filter_concat)
  also have "\<dots> = concat (map (chainRoots db) (map fst chs))"
    by (simp add: comp_def wf_chainOf_primaries [OF assms(1)])
  finally show ?thesis .
qed

lemma wf_primaryContactsOf:
  assumes "chainsWellFormed db" "chs = chainsOf db ms []"
  shows "distinct (map id' (primaryContactsOf chs)) \<and>
         (\<forall>p \<in> set (primaryContactsOf chs). p \<in> set (rows db) \<and> linkPrecedence p = Primary)"
proof -
  let ?ps = "concat (map (chainRoots db) (map fst chs))"
  have p: "primaryContactsOf chs = sort_key createdAt ?ps"
    by (simp add: primaryContactsOf_def wf_primaries_of_chains [OF assms])
  have "distinct (map fst chs)" using assms(2) chainsOf_distinct [of "[]"] by simp
  from wf_roots_distinct [OF assms(1) this] have "distinct (map id' ?ps)" .
  then have "distinct (map id' (sort_key createdAt ?ps))"
    by (simp add: distinct_map)
  moreover have "\<forall>p \<in> set ?ps. p \<in> set (rows db) \<and> linkPrecedence p = Primary"
    using wf_roots_key [OF assms(1)] by auto
  ultimately show ?thesis by (simp add: p)
qed

lemma isPrimaryId_row:
  "isPrimaryId db k \<Longrightarrow> \<exists>p \<in> set (rows db). id' p = k \<and> linkPrecedence p = Primary"
  by (simp add: isPrimaryId_def)

lemma singleChain_wf:
  assumes "chainsWellFormed db" "set contacts \<subseteq> set (rows db)"
    and "singleChain fails now db em ph contacts = Some (db', out)"
  shows "chainsWellFormed db'"
proof (cases "find (\<lambda>c. linkPrecedence c = Primary) contacts")
  case None
  with assms(1,3) show ?thesis
    by (auto simp: singleChain_def Let_def split: if_splits)
next
  case (Some p)
  then have "p \<in> set contacts" "linkPrecedence p = Primary"
    by (auto simp: find_Some_iff)
  with assms(2) have "chainsWellFormed (insertContact now (orNull ph) (orNull em) (Some (id' p)) Secondary db)"
    by (intro wf_insert_secondary [OF assms(1)]) auto
  with assms(1,3) Some show ?thesis
    by (auto simp: singleChain_def Let_def split: if_splits option.splits)
qed

lemma mergeChains_wf:
  assumes wf: "chainsWellFormed db"
    and d: "distinct (map id' (primaryContactsOf chs))"
    and p: "\<forall>p \<in> set (primaryContactsOf chs). p \<in> set (rows db) \<and> linkPrecedence p = Primary"
    and m: "mergeChains fails now db em ph chs = Some (db', out)"
    and ok: "out \<noteq> mergeInterrupted"
  shows "chainsWellFormed db'"
proof (cases "primaryContactsOf chs")
  case Nil
  with m ok show ?thesis by (simp add: mergeChains_def mergeInterrupted_def)
next
  case (Cons oldest others)
  obtain db1 r where u: "updatePromises fails now (id' oldest) others db = (db1, r)"
    by (cases "updatePromises fails now (id' oldest) others db")
  have nr: "\<not> r"
    using m ok Cons u by (auto simp: mergeChains_def mergeInterrupted_def Let_def split: if_splits)
  have "isPrimaryId db (id' oldest)" using p Cons by (auto simp: isPrimaryId_def)
  moreover have "id' oldest \<notin> id' ` set others" using d Cons by auto
  moreover have "fold (updatePromise fails now (id' oldest)) others (db, False) = (db1, False)"
    using u nr by (simp add: updatePromises_def)
  ultimately have w1: "chainsWellFormed db1" "isPrimaryId db1 (id' oldest)"
    using wf_fold_updatePromise [OF wf] by blast+
  from isPrimaryId_row [OF w1(2)] obtain po where
    po: "po \<in> set (rows db1)" "id' po = id' oldest" "linkPrecedence po = Primary" by blast
  from wf_insert_secondary [OF w1(1) po(1,3), of now "orNull ph" "orNull em"] po(2)
  have w2: "chainsWellFormed (insertContact now (orNull ph) (orNull em) (Some (id' oldest)) Secondary db1)"
    by simp
  from m Cons u nr w1(1) w2 show ?thesis
    by (auto simp: mergeChains_def Let_def split: if_splits option.splits)
qed

lemma chainsOf_subset:
  assumes "chs = chainsOf db ms []" "(k, contacts) \<in> set chs"
  shows "set contacts \<subseteq> set (rows db)"
proof -
  have "contacts = chainOf db k" using chainsOf_values [of "[]" db k contacts ms] assms by simp
  then show ?thesis using chainOf_subset by simp
qed

lemma identify_preserves_wf:
  assumes wf: "chainsWellFormed db"
    and i: "identify fails delay now db em ph = Some (db', out)"
    and ok: "out \<noteq> mergeInterrupted"
  shows "chainsWellFormed db'"
proof -
  let ?chs = "chainsOf db (arrivalOrder delay (findContactsByEmailOrPhone db em ph)) []"
  from i wf_collectChains [OF wf]
  consider (same) "db' = db"
    | (new) "db' = insertContact now (orNull ph) (orNull em) None Primary db"
    | (chains) "processContactChains fails now db em ph ?chs = Some (db', out)"
    by (auto simp: identify_def Let_def split: if_splits)
  then show ?thesis
  proof cases
    case same
    with wf show ?thesis by simp
  next
    case new
    with wf_insert_primary [OF wf] show ?thesis by simp
  next
    case chains
    show ?thesis
    proof (cases ?chs)
      case Nil
      with chains show ?thesis by (simp add: processContactChains_def)
    next
      case (Cons e es)
      obtain k contacts where e: "e = (k, contacts)" by (cases e)
      show ?thesis
      proof (cases es)
        case Nil
        with Cons e chains have s: "singleChain fails now db em ph contacts = Some (db', out)"
          by (simp add: processContactChains_def)
        have "(k, contacts) \<in> set ?chs" using Cons e by simp
        from chainsOf_subset [OF refl this] have "set contacts \<subseteq> set (rows db)" .
        from singleChain_wf [OF wf this s] show ?thesis .
      next
        case (Cons e2 es2)
        with \<open>?chs = e # es\<close> e chains
        have m: "mergeChains fails now db em ph ?chs = Some (db', out)"
          by (simp add: processContactChains_def)
        from wf_primaryContactsOf [OF wf refl] mergeChains_wf [OF wf _ _ m ok] show ?thesis
          by blast
      qed
    qed
  qed
qed

lemma wf_emptyDb: "chainsWellFormed emptyDb"
  by (simp add: chainsWellFormed_def emptyDb_def)

lemma runRequests_wf:
  "chainsWellFormed db \<Longrightarrow> runRequests reqs db = Some (db', outs) \<Longrightarrow>
     mergeInterrupted \<notin> set outs \<Longrightarrow> chainsWellFormed db'"
proof (induction reqs arbitrary: db outs)
  case Nil
  then show ?case by simp
next
  case (Cons req reqs)
  obtain fails delay now em ph where req: "req = (fails, delay, now, em, ph)" by (cases req)
  from Cons.prems(2) req obtain db1 out outs1 where
    i: "identify fails delay now db em ph = Some (db1, out)" and
    r: "runRequests reqs db1 = Some (db', outs1)" and o: "outs = out # outs1"
    by (auto split: option.splits)
  from o Cons.prems(3) have "out \<noteq> mergeInterrupted" "mergeInterrupted \<notin> set outs1" by auto
  from Cons.IH [OF identify_preserves_wf [OF Cons.prems(1) i this(1)] r this(2)] show ?case .
qed

lemma runRequests_append:
  "runRequests (reqs @ reqs2) db =
     (case runRequests reqs db of
        None \<Rightarrow> None
      | Some (db1, outs) \<Rightarrow>
          (case runRequests reqs2 db1 of
             None \<Rightarrow> None
           | Some (db2, outs2) \<Rightarrow> Some (db2, outs @ outs2)))"
proof (induction reqs arbitrary: db)
  case Nil
  then show ?case by (simp split: option.splits)
next
  case (Cons req reqs)
  obtain fails delay now em ph where "req = (fails, delay, now, em, ph)" by (cases req)
  with Cons.IH show ?case by (simp split: option.splits prod.splits)
qed

text \<open>
  C5 (as the code has it). A request is completed when it has been answered, with
  whatever status. From the empty store, three requests of second 5 build \<open>tieDb\<close>; the
  request \<open>(b, 4)\<close> then demotes contact 1, the store fails the statement that re-links
  the secondaries of contact 1, and the request is answered 500. Contact 3 still has
  the \<open>linkedId\<close> 1, and contact 1 is secondary. The request \<open>(b, 2)\<close> that follows is
  answered 200 and leaves the table as it is.
\<close>

theorem C5_interrupted_merge_counterexample:
  "runRequests
     (tieRequests @
      [(failsOnly (Reparent 1), inOrder, 9, Some ''b'', Some ''4''),
       (storeOk, inOrder, 10, Some ''b'', Some ''2'')])
     emptyDb =
     Some (tieDbInterrupted,
           [Response 200 (contactBody 1 [''a''] [''1''] []),
            Response 200 (contactBody 2 [''b''] [''2''] []),
            Response 200 (contactBody 1 [''a''] [''1'', ''4''] [3]),
            Response 500 (errorBody ''Failed to merge contacts''),
            Response 200 (contactBody 2 [''b'', ''a''] [''2'', ''1'', ''4''] [1, 3])]) \<and>
   linkedId (rows tieDbInterrupted ! 2) = Some (id' (rows tieDbInterrupted ! 0)) \<and>
   linkPrecedence (rows tieDbInterrupted ! 0) = Secondary"
proof -
  have "runRequests
          [(failsOnly (Reparent 1), inOrder, 9, Some ''b'', Some ''4''),
           (storeOk, inOrder, 10, Some ''b'', Some ''2'')] tieDb =
        Some (tieDbInterrupted,
              [Response 500 (errorBody ''Failed to merge contacts''),
               Response 200 (contactBody 2 [''b'', ''a''] [''2'', ''1'', ''4''] [1, 3])])"
    by (simp add: identify_unfold tieDb_def tieDbInterrupted_def example_rows)
  then show ?thesis
    by (simp add: runRequests_append tieDb_reached) (simp add: tieDbInterrupted_def example_rows)
qed

text \<open>
  C5, amended. From the empty store, after any sequence of requests none of which was
  answered with the error of an interrupted merge (status 500, \<open>Failed to merge
  contacts\<close>), whatever the other answers, the clock and the behaviour of the store
  were, a contact whose \<open>linkedId\<close> is the id of a contact of the table points at a
  primary contact: a merge whose statements all ran has re-linked the secondaries of
  every contact it demoted. (After an interrupted merge a secondary can point at the
  demoted contact, and later requests do not repair it.)
\<close>

theorem C5_linkedId_references_a_primary:
  assumes "runRequests reqs emptyDb = Some (db, outs)"
    and "mergeInterrupted \<notin> set outs"
    and "c \<in> set (rows db)" and "p \<in> set (rows db)" and "linkedId c = Some (id' p)"
  shows "linkPrecedence p = Primary"
  using wf_flat [OF runRequests_wf [OF wf_emptyDb assms(1,2)] assms(3-5)] .

lemma mergeRequests_run:
  "runRequests mergeRequests emptyDb =
     Some (tieDbMerged,
           [Response 200 (contactBody 1 [''a''] [''1''] []),
            Response 200 (contactBody 2 [''b''] [''2''] []),
            Response 200 (contactBody 1 [''a''] [''1'', ''4''] [3]),
            Response 200 (contactBody 2 [''b'', ''a''] [''2'', ''1'', ''4''] [1, 3])])"
  by (simp add: mergeRequests_def runRequests_append tieDb_reached tieDb_merge)

theorem C5_witness:
  "linkedId (rows tieDbMerged ! 2) = Some (id' secondPrimary) \<and>
   secondPrimary \<in> set (rows tieDbMerged) \<and>
   linkPrecedence secondPrimary = Primary"
  using C5_linkedId_references_a_primary
          [OF mergeRequests_run, of "rows tieDbMerged ! 2" secondPrimary]
  by (simp add: tieDbMerged_def mergeInterrupted_def errorBody_def contactBody_def example_rows)

section \<open>The order of a chain\<close>

text \<open>
  In a well-formed table the chain query lists the secondary contacts of the chain,
  ordered by \<open>createdAt\<close>, and then the primary contact.
\<close>

lemma insort_key_same_order:
  assumes "\<And>y. y \<in> set ys \<Longrightarrow> (f x \<le> f y) = (g x \<le> g y)"
  shows "insort_key f x ys = insort_key g x ys"
  using assms by (induction ys) auto

lemma sort_key_same_order:
  assumes "\<And>x y. x \<in> set xs \<Longrightarrow> y \<in> set xs \<Longrightarrow> (f x \<le> f y) = (g x \<le> g y)"
  shows "sort_key f xs = sort_key g xs"
  using assms
proof (induction xs)
  case Nil
  then show ?case by simp
next
  case (Cons x xs)
  have "sort_key f xs = sort_key g xs" using Cons by auto
  moreover have "insort_key f x (sort_key g xs) = insort_key g x (sort_key g xs)"
    using Cons.prems by (intro insort_key_same_order) auto
  ultimately show ?case by simp
qed

lemma insort_key_last: "\<forall>y \<in> set xs. f y < f x \<Longrightarrow> insort_key f x xs = xs @ [x]"
  by (induction xs) auto

lemma wf_chain_secondaries_first:
  assumes wf: "chainsWellFormed db" and r: "chainRoots db key = [p]"
  shows "getAllContactsInChain db key = Some (sort_key createdAt (children (rows db) p) @ [p]) \<and>
         linkPrecedence p = Primary \<and>
         (\<forall>c \<in> set (children (rows db) p). linkPrecedence c = Secondary)"
proof -
  let ?kids = "children (rows db) p"
  have sec: "\<forall>c \<in> set ?kids. linkPrecedence c = Secondary"
    using wf_linked_is_secondary [OF wf] by (auto simp: children_def)
  have pp: "linkPrecedence p = Primary"
    using r wf_roots_key [OF wf, of p key] by simp
  have "sort_key chainOrder ?kids = sort_key createdAt ?kids"
    using sec by (intro sort_key_same_order) (auto simp: chainOrder_def)
  moreover have "\<forall>c \<in> set (sort_key chainOrder ?kids). chainOrder c < chainOrder p"
    using sec pp by (auto simp: chainOrder_def)
  ultimately have "sort_key chainOrder (p # ?kids) = sort_key createdAt ?kids @ [p]"
    by (simp add: insort_key_last)
  with wf_getAllContactsInChain [OF wf, of key] r sec pp show ?thesis
    by (simp add: chainOf_def)
qed

section \<open>Requests that bring nothing new\<close>

lemma wf_chain_root:
  assumes wf: "chainsWellFormed db" and c: "c \<in> set (rows db)"
  shows "\<exists>p. chainRoots db (chainIdOf c) = [p] \<and> chainIdOf c = Some (id' p) \<and>
             linkPrecedence p = Primary \<and> p \<in> set (rows db) \<and>
             (c = p \<or> (linkPrecedence c = Secondary \<and> linkedId c = Some (id' p)))"
proof -
  have "\<exists>p \<in> set (rows db). chainIdOf c = Some (id' p) \<and> linkPrecedence p = Primary \<and>
          (c = p \<or> (linkPrecedence c = Secondary \<and> linkedId c = Some (id' p)))"
  proof (cases "linkPrecedence c")
    case Primary
    with c show ?thesis by (auto simp: chainIdOf_def)
  next
    case Secondary
    with wf_secondary [OF wf c] show ?thesis by (auto simp: chainIdOf_def)
  qed
  then obtain p where p: "p \<in> set (rows db)" "chainIdOf c = Some (id' p)" "linkPrecedence p = Primary"
    "c = p \<or> (linkPrecedence c = Secondary \<and> linkedId c = Some (id' p))" by blast
  then have "p \<in> set (chainRoots db (chainIdOf c))" by (simp add: wf_chainRoots [OF wf])
  with wf_chainRoots_short [OF wf, of "chainIdOf c"] have "chainRoots db (chainIdOf c) = [p]" by auto
  with p show ?thesis by blast
qed

lemma wf_chain_member:
  assumes wf: "chainsWellFormed db" and c: "c \<in> set (rows db)" and live: "deletedAt c = None"
  shows "c \<in> set (chainOf db (chainIdOf c))"
proof -
  from wf_chain_root [OF wf c] obtain p where
    p: "chainRoots db (chainIdOf c) = [p]"
       "c = p \<or> (linkPrecedence c = Secondary \<and> linkedId c = Some (id' p))" by blast
  then show ?thesis using c live by (auto simp: chainOf_set children_def)
qed

lemma find_filter_hd:
  "find P xs = (case filter P xs of [] \<Rightarrow> None | x # _ \<Rightarrow> Some x)"
  by (induction xs) auto

lemma wf_returnResponse_chain:
  assumes wf: "chainsWellFormed db" and r: "chainRoots db key = [p]"
  shows "\<exists>es ps ids. returnResponse (chainOf db key) = Response 200 (contactBody (id' p) es ps ids)"
proof -
  have "find (\<lambda>c. linkPrecedence c = Primary) (chainOf db key) = Some p"
    using wf_chainOf_primaries [OF wf, of key] r by (simp add: find_filter_hd)
  then show ?thesis by (auto simp: returnResponse_def Let_def)
qed

lemma chainsOf_single:
  "\<forall>c \<in> set ms. chainIdOf c = key \<Longrightarrow>
     chainsOf db ms [(key, chainOf db key)] = [(key, chainOf db key)]"
  by (induction ms) (simp_all add: chainsOf_def)

lemma chainsOf_single_key:
  assumes "ms \<noteq> []" "\<forall>c \<in> set ms. chainIdOf c = key"
  shows "chainsOf db ms [] = [(key, chainOf db key)]"
proof -
  from assms(1) obtain c cs where ms: "ms = c # cs" by (cases ms) auto
  with assms(2) have "chainsOf db ms [] = chainsOf db cs [(key, chainOf db key)]"
    by (simp add: chainsOf_def)
  with chainsOf_single [of cs key db] assms(2) ms show ?thesis by simp
qed

lemma identify_matches:
  assumes "chainsWellFormed db" "truthy em \<or> truthy ph"
    and "findContactsByEmailOrPhone db em ph \<noteq> []"
  shows "identify storeOk delay now db em ph =
           processContactChains storeOk now db em ph
             (chainsOf db (arrivalOrder delay (findContactsByEmailOrPhone db em ph)) [])"
  using assms by (auto simp: identify_def storeOk_def Let_def wf_collectChains)

lemma identify_single_known:
  assumes wf: "chainsWellFormed db" and e: "e \<noteq> []" and n: "n \<noteq> []"
    and one: "\<forall>c \<in> set (findContactsByEmailOrPhone db (Some e) (Some n)). chainIdOf c = key"
    and ce: "ce \<in> set (rows db)" "deletedAt ce = None" "email ce = Some e"
    and cn: "cn \<in> set (rows db)" "deletedAt cn = None" "phoneNumber cn = Some n"
  shows "identify storeOk delay now db (Some e) (Some n) = Some (db, returnResponse (chainOf db key))"
proof -
  let ?M = "findContactsByEmailOrPhone db (Some e) (Some n)"
  have te: "truthy (Some e)" "truthy (Some n)" using e n by (simp_all add: truthy_def)
  have me: "ce \<in> set ?M" using ce te by (simp add: findContacts_iff)
  have mn: "cn \<in> set ?M" using cn te by (simp add: findContacts_iff)
  from me have ne: "?M \<noteq> []" by auto
  have chs: "chainsOf db (arrivalOrder delay ?M) [] = [(key, chainOf db key)]"
    using chainsOf_single_key [of "arrivalOrder delay ?M" key db] ne one by simp
  have "ce \<in> set (chainOf db key)" using wf_chain_member [OF wf ce(1,2)] one me by auto
  then have he: "hasEmailIn (Some e) (chainOf db key)"
    using ce(3) te by (auto simp: hasEmailIn_def)
  have "cn \<in> set (chainOf db key)" using wf_chain_member [OF wf cn(1,2)] one mn by auto
  then have hn: "hasPhoneIn (Some n) (chainOf db key)"
    using cn(3) te by (auto simp: hasPhoneIn_def)
  have "identify storeOk delay now db (Some e) (Some n) =
        processContactChains storeOk now db (Some e) (Some n) [(key, chainOf db key)]"
    using identify_matches [OF wf _ ne] te chs by simp
  also have "\<dots> = Some (db, returnResponse (chainOf db key))"
    using he hn by (simp add: processContactChains_def singleChain_def)
  finally show ?thesis .
qed

lemma wf_primary_by_id:
  "chainsWellFormed db \<Longrightarrow> isPrimaryId db k \<Longrightarrow> c \<in> set (rows db) \<Longrightarrow> id' c = k \<Longrightarrow>
     linkPrecedence c = Primary"
  by (auto simp: isPrimaryId_def dest: wf_same_id)

lemma merge_step_keeps_primary:
  assumes wf: "chainsWellFormed db" and k: "isPrimaryId db k" and ne: "k \<noteq> d"
  shows "isPrimaryId (updateChildren now oid d (demote now oid d db)) k"
proof -
  from k obtain p where p: "p \<in> set (rows db)" "id' p = k" "linkPrecedence p = Primary"
    by (auto simp: isPrimaryId_def)
  let ?g = "\<lambda>c. if id' c = d
              then c\<lparr>linkPrecedence := Secondary, linkedId := Some oid, updatedAt := now\<rparr>
              else if linkedId c = Some d then c\<lparr>linkedId := Some oid, updatedAt := now\<rparr>
              else c"
  have "p = ?g p" using wf_primary [OF wf p(1,3)] p(2) ne by simp
  then have "p \<in> ?g ` set (rows db)" using p(1) by (rule image_eqI)
  then have "p \<in> set (rows (updateChildren now oid d (demote now oid d db)))"
    by (simp add: rows_merge_step)
  with p show ?thesis by (auto simp: isPrimaryId_def)
qed

lemma merge_step_chainId:
  assumes wf: "chainsWellFormed db" and d: "isPrimaryId db d" and i: "i < length (rows db)"
  shows "chainIdOf (rows (updateChildren now oid d (demote now oid d db)) ! i) =
           (if chainIdOf (rows db ! i) = Some d then Some oid else chainIdOf (rows db ! i))"
proof -
  let ?c = "rows db ! i"
  have c: "?c \<in> set (rows db)" using i by simp
  have nth: "rows (updateChildren now oid d (demote now oid d db)) ! i =
      (if id' ?c = d
       then ?c\<lparr>linkPrecedence := Secondary, linkedId := Some oid, updatedAt := now\<rparr>
       else if linkedId ?c = Some d then ?c\<lparr>linkedId := Some oid, updatedAt := now\<rparr>
       else ?c)"
    using i by (simp add: rows_merge_step)
  show ?thesis
  proof (cases "id' ?c = d")
    case True
    then have "linkPrecedence ?c = Primary" using wf_primary_by_id [OF wf d c] by simp
    with True nth show ?thesis by (simp add: chainIdOf_def)
  next
    case False
    show ?thesis
    proof (cases "linkedId ?c = Some d")
      case True
      then have "linkPrecedence ?c = Secondary" using wf_linked_is_secondary [OF wf c] by simp
      with True False nth show ?thesis by (simp add: chainIdOf_def)
    next
      case no: False
      with False nth show ?thesis by (auto simp: chainIdOf_def)
    qed
  qed
qed

lemma fold_updatePromise_chainId:
  "chainsWellFormed db \<Longrightarrow> isPrimaryId db oid \<Longrightarrow> oid \<notin> id' ` set cs \<Longrightarrow>
   distinct (map id' cs) \<Longrightarrow> \<forall>c \<in> set cs. isPrimaryId db (id' c) \<Longrightarrow>
   fold (updatePromise fails now oid) cs (db, r) = (db', False) \<Longrightarrow> i < length (rows db) \<Longrightarrow>
   chainIdOf (rows db' ! i) =
     (if chainIdOf (rows db ! i) \<in> Some ` id' ` set cs then Some oid else chainIdOf (rows db ! i))"
proof (induction cs arbitrary: db r)
  case Nil
  then show ?case by simp
next
  case (Cons c cs)
  obtain db1 r1 where s: "updatePromise fails now oid c (db, r) = (db1, r1)"
    by (cases "updatePromise fails now oid c (db, r)")
  with Cons.prems have f: "fold (updatePromise fails now oid) cs (db1, r1) = (db', False)" by simp
  from fold_updatePromise_rejected [OF f] have "\<not> r1" by simp
  with updatePromise_rejected [OF s]
  have ok: "\<not> fails (Demote (id' c))" "\<not> fails (Reparent (id' c))" by simp_all
  with s have db1: "db1 = updateChildren now oid (id' c) (demote now oid (id' c) db)"
    by (simp add: updatePromise_def Let_def)
  have ne: "id' c \<noteq> oid" using Cons.prems(3) by auto
  from wf_merge_step [OF Cons.prems(1,2) ne, of now] db1
  have w1: "chainsWellFormed db1" "isPrimaryId db1 oid" by simp_all
  have o: "oid \<notin> id' ` set cs" using Cons.prems(3) by auto
  have dist: "distinct (map id' cs)" using Cons.prems(4) by simp
  have prim: "\<forall>c' \<in> set cs. isPrimaryId db1 (id' c')"
  proof
    fix c' assume c': "c' \<in> set cs"
    have "id' c \<notin> id' ` set cs" using Cons.prems(4) by simp
    with c' have "id' c' \<noteq> id' c" by (metis image_eqI)
    moreover have "isPrimaryId db (id' c')" using Cons.prems(5) c' by simp
    ultimately show "isPrimaryId db1 (id' c')"
      using merge_step_keeps_primary [OF Cons.prems(1)] db1 by simp
  qed
  have len: "i < length (rows db1)" using db1 Cons.prems(7) by simp
  have step: "chainIdOf (rows db1 ! i) =
      (if chainIdOf (rows db ! i) = Some (id' c) then Some oid else chainIdOf (rows db ! i))"
    using merge_step_chainId [OF Cons.prems(1) _ Cons.prems(7), of "id' c" now oid] Cons.prems(5) db1
    by simp
  from Cons.IH [OF w1 o dist prim f len] step o show ?case by auto
qed

lemma storeOk_updatePromises:
  "\<exists>db1. updatePromises storeOk now oid cs db = (db1, False)"
proof -
  obtain db1 r where u: "fold (updatePromise storeOk now oid) cs (db, False) = (db1, r)"
    by (cases "fold (updatePromise storeOk now oid) cs (db, False)")
  from fold_updatePromise_rejected [OF u] have "\<not> r" by (simp add: storeOk_def)
  with u show ?thesis by (simp add: updatePromises_def)
qed

lemma chainsOf_entry:
  assumes "c \<in> set ms"
  shows "(chainIdOf c, chainOf db (chainIdOf c)) \<in> set (chainsOf db ms [])"
proof -
  have "chainIdOf c \<in> fst ` set (chainsOf db ms [])"
    using assms by (simp add: chainsOf_keys)
  then obtain v where v: "(chainIdOf c, v) \<in> set (chainsOf db ms [])" by force
  with chainsOf_values [of "[]" db "chainIdOf c" v ms] show ?thesis by simp
qed

lemma wf_match_in_allContacts:
  assumes wf: "chainsWellFormed db" and c: "c \<in> set ms" "c \<in> set (rows db)" "deletedAt c = None"
  shows "c \<in> set (allContactsOf (chainsOf db ms []))"
proof -
  have "c \<in> set (chainOf db (chainIdOf c))" using wf_chain_member [OF wf c(2,3)] .
  with chainsOf_entry [OF c(1), of db] show ?thesis
    by (force simp: allContactsOf_def)
qed

lemma wf_match_root_in_primaries:
  assumes wf: "chainsWellFormed db" and c: "c \<in> set ms" "c \<in> set (rows db)"
  shows "\<exists>p \<in> set (primaryContactsOf (chainsOf db ms [])). chainIdOf c = Some (id' p)"
proof -
  from wf_chain_root [OF wf c(2)] obtain p where
    p: "chainRoots db (chainIdOf c) = [p]" "chainIdOf c = Some (id' p)" by blast
  have "chainIdOf c \<in> set (map fst (chainsOf db ms []))"
    using chainsOf_keys [of db ms "[]"] c(1) by simp
  with p(1) have "p \<in> set (concat (map (chainRoots db) (map fst (chainsOf db ms []))))"
    by force
  then have "p \<in> set (primaryContactsOf (chainsOf db ms []))"
    by (simp add: primaryContactsOf_def wf_primaries_of_chains [OF wf refl])
  with p(2) show ?thesis by blast
qed

lemma matches_rows:
  "c \<in> set (findContactsByEmailOrPhone db em ph) \<Longrightarrow> c \<in> set (rows db) \<and> deletedAt c = None"
  by (simp add: findContacts_iff)

lemma sameFacts_match:
  assumes "length (rows db1) = length (rows db)"
    and "\<forall>i < length (rows db). sameFacts (rows db ! i) (rows db1 ! i)"
    and "c1 \<in> set (findContactsByEmailOrPhone db1 em ph)"
  shows "\<exists>i < length (rows db). c1 = rows db1 ! i \<and>
           rows db ! i \<in> set (findContactsByEmailOrPhone db em ph)"
proof -
  from assms(3) have c1: "c1 \<in> set (rows db1)"
    "deletedAt c1 = None \<and> (truthy em \<and> email c1 = em \<or> truthy ph \<and> phoneNumber c1 = ph)"
    by (simp_all add: findContacts_iff)
  from c1(1) obtain i where i: "i < length (rows db1)" "c1 = rows db1 ! i"
    by (auto simp: in_set_conv_nth)
  with assms(1,2) have "sameFacts (rows db ! i) c1" by simp
  with c1(2) have "rows db ! i \<in> set (findContactsByEmailOrPhone db em ph)"
    using i(1) assms(1) by (simp add: findContacts_iff sameFacts_def)
  with i assms(1) show ?thesis by auto
qed

lemma sameFacts_row:
  assumes "length (rows db1) = length (rows db)"
    and "\<forall>i < length (rows db). sameFacts (rows db ! i) (rows db1 ! i)"
    and "c \<in> set (rows db)"
  shows "\<exists>c1 \<in> set (rows db1). sameFacts c c1"
proof -
  from assms(3) obtain i where i: "i < length (rows db)" "c = rows db ! i"
    by (auto simp: in_set_conv_nth)
  with assms(1,2) have "rows db1 ! i \<in> set (rows db1)" "sameFacts c (rows db1 ! i)" by simp_all
  then show ?thesis by blast
qed

lemma sameFacts_ids:
  assumes "length (rows db1) = length (rows db)"
    and "\<forall>i < length (rows db). sameFacts (rows db ! i) (rows db1 ! i)"
  shows "map id' (rows db1) = map id' (rows db)"
  using assms by (intro nth_equalityI) (simp_all add: sameFacts_def)

lemma identify_merge_known:
  assumes wf: "chainsWellFormed db" and e: "e \<noteq> []" and n: "n \<noteq> []"
    and two: "chainsOf db (arrivalOrder delay (findContactsByEmailOrPhone db (Some e) (Some n))) [] =
                e1 # e2 # es"
    and ce: "ce \<in> set (rows db)" "deletedAt ce = None" "email ce = Some e"
    and cn: "cn \<in> set (rows db)" "deletedAt cn = None" "phoneNumber cn = Some n"
  shows "\<exists>db1 oid.
           identify storeOk delay now db (Some e) (Some n) =
             Some (db1, returnResponse (chainOf db1 (Some oid))) \<and>
           chainsWellFormed db1 \<and> isPrimaryId db1 oid \<and>
           length (rows db1) = length (rows db) \<and> seq db1 = seq db \<and>
           (\<forall>i < length (rows db). sameFacts (rows db ! i) (rows db1 ! i)) \<and>
           (\<forall>c \<in> set (findContactsByEmailOrPhone db1 (Some e) (Some n)). chainIdOf c = Some oid)"
proof -
  let ?M = "findContactsByEmailOrPhone db (Some e) (Some n)"
  let ?A = "arrivalOrder delay ?M"
  let ?chs = "chainsOf db ?A []"
  have te: "truthy (Some e)" "truthy (Some n)" using e n by (simp_all add: truthy_def)
  have me: "ce \<in> set ?A" using ce te by (simp add: findContacts_iff)
  have mn: "cn \<in> set ?A" using cn te by (simp add: findContacts_iff)
  from me have ne: "?M \<noteq> []" by auto
  have id1: "identify storeOk delay now db (Some e) (Some n) =
             mergeChains storeOk now db (Some e) (Some n) ?chs"
    using identify_matches [OF wf _ ne, where now = now and delay = delay] te two
    by (simp add: processContactChains_def split: prod.splits)
  from wf_primaryContactsOf [OF wf refl, of ?A]
  have pd: "distinct (map id' (primaryContactsOf ?chs))"
    and pp: "\<forall>p \<in> set (primaryContactsOf ?chs). p \<in> set (rows db) \<and> linkPrecedence p = Primary"
    by simp_all
  from wf_match_root_in_primaries [OF wf me ce(1)]
  obtain oldest others where ps: "primaryContactsOf ?chs = oldest # others"
    by (cases "primaryContactsOf ?chs") auto
  let ?oid = "id' oldest"
  from storeOk_updatePromises obtain db1 where
    u: "updatePromises storeOk now ?oid others db = (db1, False)" by blast
  then have f: "fold (updatePromise storeOk now ?oid) others (db, False) = (db1, False)"
    by (simp add: updatePromises_def)
  have po: "isPrimaryId db ?oid" using pp ps by (auto simp: isPrimaryId_def)
  have notin: "?oid \<notin> id' ` set others" using pd ps by auto
  have dist: "distinct (map id' others)" using pd ps by simp
  have prim: "\<forall>c \<in> set others. isPrimaryId db (id' c)"
    using pp ps by (auto simp: isPrimaryId_def)
  from wf_fold_updatePromise [OF wf po notin f]
  have w1: "chainsWellFormed db1" "isPrimaryId db1 ?oid" by simp_all
  from fold_updatePromise_frame [OF f]
  have fr: "length (rows db1) = length (rows db)" "seq db1 = seq db"
    "\<forall>i < length (rows db). sameFacts (rows db ! i) (rows db1 ! i)" by simp_all
  have he: "hasEmailIn (Some e) (allContactsOf ?chs)"
    using wf_match_in_allContacts [OF wf me ce(1,2)] ce(3) te by (auto simp: hasEmailIn_def)
  have hn: "hasPhoneIn (Some n) (allContactsOf ?chs)"
    using wf_match_in_allContacts [OF wf mn cn(1,2)] cn(3) te by (auto simp: hasPhoneIn_def)
  have "mergeChains storeOk now db (Some e) (Some n) ?chs =
        Some (db1, returnResponse (chainOf db1 (Some ?oid)))"
    using ps u he hn
    by (simp add: mergeChains_def Let_def storeOk_def wf_getAllContactsInChain [OF w1(1)])
  with id1 have res: "identify storeOk delay now db (Some e) (Some n) =
        Some (db1, returnResponse (chainOf db1 (Some ?oid)))" by simp
  have one: "\<forall>c \<in> set (findContactsByEmailOrPhone db1 (Some e) (Some n)). chainIdOf c = Some ?oid"
  proof
    fix c1 assume "c1 \<in> set (findContactsByEmailOrPhone db1 (Some e) (Some n))"
    from sameFacts_match [OF fr(1,3) this] obtain i where
      i: "i < length (rows db)" "c1 = rows db1 ! i" "rows db ! i \<in> set ?M" by blast
    from i(3) have ia: "rows db ! i \<in> set ?A" by simp
    from wf_match_root_in_primaries [OF wf ia] i(1) obtain p where
      p: "p \<in> set (oldest # others)" "chainIdOf (rows db ! i) = Some (id' p)"
      using ps by auto
    have "chainIdOf (rows db1 ! i) =
            (if chainIdOf (rows db ! i) \<in> Some ` id' ` set others then Some ?oid
             else chainIdOf (rows db ! i))"
      using fold_updatePromise_chainId [OF wf po notin dist prim f i(1)] .
    with p i(2) show "chainIdOf c1 = Some ?oid" by auto
  qed
  from res w1 fr one show ?thesis by blast
qed

text \<open>
  C6. The table is well formed (as it is after any sequence of requests from the empty
  store none of which was an interrupted merge, \<open>runRequests_wf\<close>) and a chain of it holds a contact with the email \<open>e\<close> and a
  contact with the phone \<open>n\<close>, both non-empty. With a store that does not fail, the
  request \<open>(e, n)\<close> is answered with status 200; the same request issued again, at any
  later time and whatever the order in which the chain queries are answered, gets the
  same response, with the same \<open>primaryContatctId\<close>, and leaves
  the store as the first request left it. Neither request adds a row: the ids in the
  table and the AUTOINCREMENT counter stay as they were. (When other chains also hold
  \<open>e\<close> or \<open>n\<close>, the first request merges them; it still inserts nothing.)
\<close>

theorem C6_known_pair_is_idempotent:
  assumes wf: "chainsWellFormed db"
    and chain: "getAllContactsInChain db (Some k) = Some chain"
    and ce: "ce \<in> set chain" "email ce = Some e" "e \<noteq> []"
    and cn: "cn \<in> set chain" "phoneNumber cn = Some n" "n \<noteq> []"
  shows "\<exists>db1 pid es ps ids.
           identify storeOk delay1 now1 db (Some e) (Some n) =
             Some (db1, Response 200 (contactBody pid es ps ids)) \<and>
           identify storeOk delay2 now2 db1 (Some e) (Some n) =
             Some (db1, Response 200 (contactBody pid es ps ids)) \<and>
           map id' (rows db1) = map id' (rows db) \<and> seq db1 = seq db"
proof -
  let ?M = "findContactsByEmailOrPhone db (Some e) (Some n)"
  let ?chs = "chainsOf db (arrivalOrder delay1 ?M) []"
  have ch: "chain = chainOf db (Some k)" using chain wf_getAllContactsInChain [OF wf] by simp
  have cer: "ce \<in> set (rows db)" "deletedAt ce = None"
    using ce(1) ch chainOf_subset chainOf_live by auto
  have cnr: "cn \<in> set (rows db)" "deletedAt cn = None"
    using cn(1) ch chainOf_subset chainOf_live by auto
  have te: "truthy (Some e)" "truthy (Some n)" using ce(3) cn(3) by (simp_all add: truthy_def)
  have me: "ce \<in> set ?M" using cer ce(2) te by (simp add: findContacts_iff)
  have keys: "fst ` set ?chs = chainIdOf ` set ?M" by (simp add: chainsOf_keys)
  show ?thesis
  proof (cases ?chs)
    case Nil
    with keys me show ?thesis by simp
  next
    case (Cons e1 es1)
    show ?thesis
    proof (cases es1)
      case Nil
      with Cons keys have one: "\<forall>c \<in> set ?M. chainIdOf c = fst e1" by auto
      from wf_chain_root [OF wf cer(1)] one me obtain p where
        "chainRoots db (fst e1) = [p]" by auto
      from wf_returnResponse_chain [OF wf this] obtain es ps ids where
        r: "returnResponse (chainOf db (fst e1)) = Response 200 (contactBody (id' p) es ps ids)"
        by blast
      from identify_single_known [OF wf ce(3) cn(3) one cer ce(2) cnr cn(2)] r
      show ?thesis by auto
    next
      case (Cons e2 es2)
      with \<open>?chs = e1 # es1\<close> have two: "?chs = e1 # e2 # es2" by simp
      from identify_merge_known [OF wf ce(3) cn(3) two cer ce(2) cnr cn(2), where now = now1]
      obtain db1 oid where
        first: "identify storeOk delay1 now1 db (Some e) (Some n) =
                  Some (db1, returnResponse (chainOf db1 (Some oid)))"
        and w1: "chainsWellFormed db1" "isPrimaryId db1 oid"
        and fr: "length (rows db1) = length (rows db)" "seq db1 = seq db"
                "\<forall>i < length (rows db). sameFacts (rows db ! i) (rows db1 ! i)"
        and one: "\<forall>c \<in> set (findContactsByEmailOrPhone db1 (Some e) (Some n)). chainIdOf c = Some oid"
        by blast
      from sameFacts_row [OF fr(1,3) cer(1)] obtain ce1 where
        ce1: "ce1 \<in> set (rows db1)" "deletedAt ce1 = None" "email ce1 = Some e"
        using cer(2) ce(2) by (auto simp: sameFacts_def)
      from sameFacts_row [OF fr(1,3) cnr(1)] obtain cn1 where
        cn1: "cn1 \<in> set (rows db1)" "deletedAt cn1 = None" "phoneNumber cn1 = Some n"
        using cnr(2) cn(2) by (auto simp: sameFacts_def)
      from identify_single_known
             [OF w1(1) ce(3) cn(3) one ce1 cn1, where now = now2 and delay = delay2]
      have second: "identify storeOk delay2 now2 db1 (Some e) (Some n) =
                      Some (db1, returnResponse (chainOf db1 (Some oid)))" .
      from isPrimaryId_row [OF w1(2)] obtain po where
        po: "po \<in> set (rows db1)" "id' po = oid" "linkPrecedence po = Primary" by blast
      then have "po \<in> set (chainRoots db1 (Some oid))" by (simp add: wf_chainRoots [OF w1(1)])
      with wf_chainRoots_short [OF w1(1), of "Some oid"] have "chainRoots db1 (Some oid) = [po]"
        by auto
      from wf_returnResponse_chain [OF w1(1) this] obtain es ps ids where
        r: "returnResponse (chainOf db1 (Some oid)) = Response 200 (contactBody (id' po) es ps ids)"
        by blast
      from first second r sameFacts_ids [OF fr(1,3)] fr(2) show ?thesis by auto
    qed
  qed
qed

theorem C6_witness:
  "\<exists>db1 pid es ps ids.
     identify storeOk inOrder 10 tieDb (Some ''a'') (Some ''4'') =
       Some (db1, Response 200 (contactBody pid es ps ids)) \<and>
     identify storeOk inOrder 11 db1 (Some ''a'') (Some ''4'') =
       Some (db1, Response 200 (contactBody pid es ps ids)) \<and>
     map id' (rows db1) = map id' (rows tieDb) \<and> seq db1 = seq tieDb"
proof (rule C6_known_pair_is_idempotent
         [of tieDb 1 "[phoneSecondary, firstPrimary]" firstPrimary "''a''" phoneSecondary "''4''"])
  show "chainsWellFormed tieDb"
    by (simp add: chainsWellFormed_def tieDb_def example_rows)
  show "getAllContactsInChain tieDb (Some 1) = Some [phoneSecondary, firstPrimary]"
    by (simp add: identify_unfold tieDb_def example_rows)
qed (simp_all add: example_rows)

section \<open>The surviving primary\<close>

lemma merge_demotes:
  assumes wf: "chainsWellFormed db" and po: "isPrimaryId db oid"
    and notin: "oid \<notin> id' ` set others" and dist: "distinct (map id' others)"
    and prim: "\<forall>c \<in> set others. isPrimaryId db (id' c)"
    and f: "fold (updatePromise fails now oid) others (db, r) = (db1, False)"
    and q: "q \<in> set others" "q \<in> set (rows db)"
  shows "\<exists>q1 \<in> set (rows db1). id' q1 = id' q \<and> linkPrecedence q1 = Secondary \<and>
           linkedId q1 = Some oid"
proof -
  from q(2) obtain i where i: "i < length (rows db)" "rows db ! i = q"
    by (auto simp: in_set_conv_nth)
  have qp: "linkPrecedence q = Primary"
    using wf_primary_by_id [OF wf _ q(2) refl] prim q(1) by simp
  then have cq: "chainIdOf (rows db ! i) = Some (id' q)" using i(2) by (simp add: chainIdOf_def)
  have "chainIdOf (rows db1 ! i) =
          (if chainIdOf (rows db ! i) \<in> Some ` id' ` set others then Some oid
           else chainIdOf (rows db ! i))"
    using fold_updatePromise_chainId [OF wf po notin dist prim f i(1)] .
  with cq q(1) have c1: "chainIdOf (rows db1 ! i) = Some oid" by auto
  from fold_updatePromise_frame [OF f] i
  have fr: "length (rows db1) = length (rows db)" "id' (rows db1 ! i) = id' q"
    by (auto simp: sameFacts_def)
  have "id' q \<noteq> oid" using notin q(1) by auto
  with c1 fr(2) have "linkPrecedence (rows db1 ! i) = Secondary \<and> linkedId (rows db1 ! i) = Some oid"
    by (cases "linkPrecedence (rows db1 ! i)") (auto simp: chainIdOf_def)
  moreover have "rows db1 ! i \<in> set (rows db1)" using fr(1) i(1) by simp
  ultimately show ?thesis using fr(2) by blast
qed

lemma isPrimaryId_insert:
  "isPrimaryId db k \<Longrightarrow> isPrimaryId (insertContact now ph em l p db) k"
  by (auto simp: isPrimaryId_def insertContact_def)

text \<open>
  C2 (as the code has it). The claim breaks a tie of \<open>createdAt\<close> by the smaller id; the
  code sorts the primaries by \<open>createdAt\<close> alone, and the stable sort leaves tied
  primaries in the order in which their chains entered the Map. In the store \<open>tieDb\<close>,
  which three requests of the same second build, both primaries were created at second
  5. The request \<open>(b, 4)\<close> matches contact 2 by email and contact 3 by phone: when the
  chain queries are answered in the order of issue, the chain of contact 2 enters the
  Map first and contact 2 survives, although contact 1 has the smaller id. The request
  \<open>(a, 2)\<close> matches contacts 1 and 3 by email and contact 2 by phone: when the query of
  chain 1 is answered last, contact 2 survives again. Whatever the order of the
  answers, one of the two requests keeps the primary with the greater id.
\<close>

theorem C2_tie_counterexample:
  "runRequests tieRequests emptyDb =
     Some (tieDb, [Response 200 (contactBody 1 [''a''] [''1''] []),
                   Response 200 (contactBody 2 [''b''] [''2''] []),
                   Response 200 (contactBody 1 [''a''] [''1'', ''4''] [3])]) \<and>
   createdAt firstPrimary = createdAt secondPrimary \<and>
   id' firstPrimary < id' secondPrimary \<and>
   collectChains tieDb
     (arrivalOrder inOrder (findContactsByEmailOrPhone tieDb (Some ''b'') (Some ''4''))) [] =
     Some tieChains \<and>
   collectChains tieDb
     (arrivalOrder (answeredLast 1)
        (findContactsByEmailOrPhone tieDb (Some ''a'') (Some ''2''))) [] =
     Some tieChains \<and>
   primaryContactsOf tieChains = [secondPrimary, firstPrimary] \<and>
   identify storeOk inOrder 9 tieDb (Some ''b'') (Some ''4'') =
     Some (tieDbMerged, Response 200 (contactBody 2 [''b'', ''a''] [''2'', ''1'', ''4''] [1, 3])) \<and>
   identify storeOk (answeredLast 1) 9 tieDb (Some ''a'') (Some ''2'') =
     Some (tieDbMerged, Response 200 (contactBody 2 [''b'', ''a''] [''2'', ''1'', ''4''] [1, 3]))"
  by (simp add: tieDb_reached tieChains_collected tieDb_merge)
     (simp add: tieChains_def tieDb_def tieDbMerged_def identify_unfold example_rows)

text \<open>
  C2, amended. The table is well formed and the matches of the request resolve to two
  or more chains. When the request is answered with status 200, the surviving primary
  is, among the primary contacts of the collected chains, one with the smallest
  \<open>createdAt\<close>; when several share it, it is the one that comes first in the
  concatenation of the chains in the order of the Map, which is the order in which the
  chain queries were answered (not the one with the smallest id). The response names it
  as \<open>primaryContatctId\<close>, it is a primary contact of the table after the request, and
  every other primary contact of the collected chains is then secondary and linked to
  it.
\<close>

theorem C2_surviving_primary_is_first_oldest:
  assumes wf: "chainsWellFormed db"
    and ch: "collectChains db (arrivalOrder delay (findContactsByEmailOrPhone db em ph)) [] =
               Some contactChains"
    and two: "2 \<le> length contactChains"
    and i: "identify fails delay now db em ph = Some (db', Response 200 body)"
    and pr: "primaries = filter (\<lambda>c. linkPrecedence c = Primary) (allContactsOf contactChains)"
  shows "\<exists>p. find (\<lambda>q. createdAt q = createdAt p) primaries = Some p \<and>
             (\<forall>q \<in> set primaries. createdAt p \<le> createdAt q) \<and>
             (\<exists>es ps ids. body = contactBody (id' p) es ps ids) \<and>
             isPrimaryId db' (id' p) \<and>
             (\<forall>q \<in> set primaries. q \<noteq> p \<longrightarrow>
                (\<exists>q1 \<in> set (rows db'). id' q1 = id' q \<and> linkPrecedence q1 = Secondary \<and>
                   linkedId q1 = Some (id' p)))"
proof -
  let ?A = "arrivalOrder delay (findContactsByEmailOrPhone db em ph)"
  have chs: "contactChains = chainsOf db ?A []" using ch wf_collectChains [OF wf] by simp
  from two obtain e1 e2 es where l: "contactChains = e1 # e2 # es"
    by (cases contactChains; cases "tl contactChains") auto
  have ne: "findContactsByEmailOrPhone db em ph \<noteq> []"
    using ch l by (auto simp: arrivalOrder_def)
  have "processContactChains fails now db em ph contactChains = Some (db', Response 200 body)"
    using i ch ne by (auto simp: identify_def Let_def split: if_splits)
  with l have m: "mergeChains fails now db em ph contactChains = Some (db', Response 200 body)"
    by (simp add: processContactChains_def split: prod.splits)
  from wf_primaryContactsOf [OF wf chs]
  have pd: "distinct (map id' (primaryContactsOf contactChains))"
    and pp: "\<forall>p \<in> set (primaryContactsOf contactChains).
               p \<in> set (rows db) \<and> linkPrecedence p = Primary"
    by simp_all
  from m obtain oldest others where ps: "primaryContactsOf contactChains = oldest # others"
    by (cases "primaryContactsOf contactChains") (auto simp: mergeChains_def)
  let ?oid = "id' oldest"
  obtain db1 r where u: "updatePromises fails now ?oid others db = (db1, r)"
    by (cases "updatePromises fails now ?oid others db")
  have nr: "\<not> r" using m ps u by (auto simp: mergeChains_def Let_def split: if_splits)
  with u have f: "fold (updatePromise fails now ?oid) others (db, False) = (db1, False)"
    by (simp add: updatePromises_def)
  have po: "isPrimaryId db ?oid" using pp ps by (auto simp: isPrimaryId_def)
  have notin: "?oid \<notin> id' ` set others" using pd ps by auto
  have dist: "distinct (map id' others)" using pd ps by simp
  have prim: "\<forall>c \<in> set others. isPrimaryId db (id' c)"
    using pp ps by (auto simp: isPrimaryId_def)
  from wf_fold_updatePromise [OF wf po notin f]
  have w1: "chainsWellFormed db1" "isPrimaryId db1 ?oid" by simp_all
  from isPrimaryId_row [OF w1(2)] obtain p1 where
    p1: "p1 \<in> set (rows db1)" "id' p1 = ?oid" "linkPrecedence p1 = Primary" by blast
  let ?db2 = "insertContact now (orNull ph) (orNull em) (Some ?oid) Secondary db1"
  from wf_insert_secondary [OF w1(1) p1(1,3), of now "orNull ph" "orNull em"] p1(2)
  have w2: "chainsWellFormed ?db2" by simp
  from m ps u nr consider
      (merged) "db' = db1" "getAllContactsInChain db1 (Some ?oid) \<noteq> None"
        "returnResponse (the (getAllContactsInChain db1 (Some ?oid))) = Response 200 body"
    | (final) "db' = ?db2" "getAllContactsInChain ?db2 (Some ?oid) \<noteq> None"
        "returnResponse (the (getAllContactsInChain ?db2 (Some ?oid))) = Response 200 body"
    by (auto simp: mergeChains_def Let_def split: if_splits option.splits)
  then have after: "chainsWellFormed db' \<and> isPrimaryId db' ?oid \<and>
      set (rows db1) \<subseteq> set (rows db') \<and>
      returnResponse (chainOf db' (Some ?oid)) = Response 200 body"
  proof cases
    case merged
    with w1 show ?thesis by (simp add: wf_getAllContactsInChain)
  next
    case final
    with w2 isPrimaryId_insert [OF w1(2)] show ?thesis
      by (auto simp: wf_getAllContactsInChain rows_insertContact)
  qed
  from after isPrimaryId_row obtain po' where
    po': "po' \<in> set (rows db')" "id' po' = ?oid" "linkPrecedence po' = Primary" by blast
  with after have "po' \<in> set (chainRoots db' (Some ?oid))" by (simp add: wf_chainRoots)
  with after wf_chainRoots_short [of db' "Some ?oid"] have "chainRoots db' (Some ?oid) = [po']"
    by auto
  from wf_returnResponse_chain [OF _ this] after po'(2)
  have body: "\<exists>es ps ids. body = contactBody ?oid es ps ids" by auto
  have s: "sort_key createdAt primaries = oldest # others"
    using ps pr by (simp add: primaryContactsOf_def)
  from sort_key_head [OF s]
  have fnd: "find (\<lambda>q. createdAt q \<le> createdAt oldest) primaries = Some oldest"
    and mn: "\<forall>q \<in> set primaries. createdAt oldest \<le> createdAt q"
    by simp_all
  have "find (\<lambda>q. createdAt q = createdAt oldest) primaries =
        find (\<lambda>q. createdAt q \<le> createdAt oldest) primaries"
    using mn by (intro find_cong) auto
  with fnd have first: "find (\<lambda>q. createdAt q = createdAt oldest) primaries = Some oldest"
    by simp
  have sets: "set primaries = set (oldest # others)"
    using s by (metis set_sort)
  have dem: "\<forall>q \<in> set primaries. q \<noteq> oldest \<longrightarrow>
      (\<exists>q1 \<in> set (rows db'). id' q1 = id' q \<and> linkPrecedence q1 = Secondary \<and>
         linkedId q1 = Some ?oid)"
  proof (intro ballI impI)
    fix q assume "q \<in> set primaries" "q \<noteq> oldest"
    with sets have qo: "q \<in> set others" by auto
    with pp ps have "q \<in> set (rows db)" by auto
    from merge_demotes [OF wf po notin dist prim f qo this] after
    show "\<exists>q1 \<in> set (rows db'). id' q1 = id' q \<and> linkPrecedence q1 = Secondary \<and>
            linkedId q1 = Some ?oid" by blast
  qed
  from first mn body after dem show ?thesis by blast
qed

theorem C2_witness:
  "\<exists>p. find (\<lambda>q. createdAt q = createdAt p) [secondPrimary, firstPrimary] = Some p \<and>
        (\<exists>es ps ids.
           contactBody 2 [''b'', ''a''] [''2'', ''1'', ''4''] [1, 3] = contactBody (id' p) es ps ids) \<and>
        isPrimaryId tieDbMerged (id' p)"
proof -
  have wf: "chainsWellFormed tieDb"
    by (simp add: chainsWellFormed_def tieDb_def example_rows)
  have pr: "[secondPrimary, firstPrimary] =
              filter (\<lambda>c. linkPrecedence c = Primary) (allContactsOf tieChains)"
    by (simp add: tieChains_def allContactsOf_def example_rows)
  have two: "2 \<le> length tieChains" by (simp add: tieChains_def)
  from C2_surviving_primary_is_first_oldest [OF wf tieChains_collected two tieDb_merge pr]
  show ?thesis by blast
qed

end
